theory Spec2Isabelle
  imports Main "HOL-Library.Word" "HOL-Library.Multiset"
begin

section \<open>The event loop of main.go\<close>

subsection \<open>Data\<close>

text \<open>
  The three structs of main.go. Go strings are byte strings, here \<open>string\<close>.
  \<^verbatim>\<open>
  type Event struct { Key string; Data string; IsAsync bool }
  type EventResult struct { Key string; Result string }
  type EventLoop struct {
      Events          []Event
      Handlers        map[string]func(data string) string
      ProcessedEvents []EventResult
  }
  \<close>
  Both \<open>Event\<close> and \<open>EventResult\<close> have a field \<open>Key\<close>; they are written
  \<open>Event.Key\<close> and \<open>EventResult.Key\<close>.
\<close>

record Event =
  Key :: string
  Data :: string
  IsAsync :: bool

record EventResult =
  Key :: string
  Result :: string

text \<open>
  A value of Go type \<open>func(data string) string\<close> is either \<open>nil\<close> or a function.
  Handlers are taken as pure functions of their argument: what a handler does besides
  returning its string (printing, files, network) is outside the event loop.
\<close>

datatype func = NilFunc | Func "string \<Rightarrow> string"

text \<open>
  A Go slice is a window on a backing array: the array, the index in it where the window
  starts, the length of the window and its capacity, that is, how far the window may grow
  inside the array. Two slices on the same array share its cells.

  \<open>ProcessedEvents\<close> is read and written by the goroutines as well as by the driver, so
  it is kept as such a slice, and its backing arrays are kept in a heap. \<open>Events\<close> is
  touched by the driver alone, and the driver keeps no second slice on its backing array:
  it is held as the list of its elements.
\<close>

record slice =
  array :: nat
  low :: nat
  len :: nat
  cap :: nat

record EventLoop =
  Events :: "Event list"
  Handlers :: "string \<rightharpoonup> func"
  ProcessedEvents :: slice

text \<open>
  \<open>processAsynchronously\<close> starts a goroutine whose body is
  \<^verbatim>\<open>
  handler := e.Handlers[event.Key]
  if handler != nil {
      result := handler(event.Data)
      e.ProcessedEvents = append(e.ProcessedEvents, EventResult{Key: event.Key, Result: result})
  }
  \<close>
  The last statement reads the shared field, calls \<open>append\<close> on what it has read, and
  writes the slice that \<open>append\<close> returns back to the field; nothing in main.go makes
  that one step. A goroutine is therefore in one of two states: \<open>Spawned event\<close>, started
  and not yet run, and \<open>Loaded r s\<close>, where it has computed its result \<open>r\<close>, has called
  \<open>append\<close>, which returned the slice \<open>s\<close>, and has still to assign \<open>s\<close> to the field.
\<close>

datatype goroutine = Spawned Event | Loaded EventResult slice

text \<open>
  What the loop prints, one constructor per \<open>fmt.Printf\<close> of \<open>run\<close> and
  \<open>produceOutputFor\<close>. The number of milliseconds in the "blocked" line is wall-clock time
  and is left out.
\<close>

datatype line =
    Received string
  | Blocked
  | NoHandler string
  | Output EventResult

text \<open>
  The program state: the \<open>EventLoop\<close> struct, the backing arrays of \<open>ProcessedEvents\<close>
  (array number, then index), the number of arrays allocated so far, the goroutines in
  flight and standard output.
\<close>

record world = EventLoop +
  heap :: "nat \<Rightarrow> nat \<Rightarrow> EventResult"
  allocated :: nat
  goroutines :: "goroutine list"
  stdout :: "line list"

subsection \<open>Slices\<close>

text \<open>The zero value of \<open>EventResult\<close>, which fills a new array.\<close>

definition zero :: EventResult where
  "zero = \<lparr>Key = [], Result = []\<rparr>"

text \<open>The elements of a slice, and the completed queue: the elements of \<open>ProcessedEvents\<close>.\<close>

definition elements :: "(nat \<Rightarrow> nat \<Rightarrow> EventResult) \<Rightarrow> slice \<Rightarrow> EventResult list" where
  "elements h s = map (\<lambda>i. h (array s) (low s + i)) [0..<len s]"

definition completed :: "world \<Rightarrow> EventResult list" where
  "completed w = elements (heap w) (ProcessedEvents w)"

text \<open>
  Go's built-in \<open>append(s, x)\<close> for one element. With spare capacity it writes \<open>x\<close> into
  the backing array of \<open>s\<close>, just behind the window, and returns the window made one
  longer: every slice on that array sees the write. Without spare capacity it allocates a
  new array, copies the elements of \<open>s\<close> and \<open>x\<close> into it and returns a slice on the new
  array. How large the new array is, is the choice of Go's runtime and not fixed by the
  language beyond being large enough; it is a parameter here (\<open>newcap\<close>).
\<close>

definition go_append :: "nat \<Rightarrow> slice \<Rightarrow> EventResult \<Rightarrow> world \<Rightarrow> slice \<times> world" where
  "go_append newcap s x w =
     (if len s < cap s then
        (s\<lparr>len := len s + 1\<rparr>,
         w\<lparr>heap := (heap w)(array s := (heap w (array s))(low s + len s := x))\<rparr>)
      else
        (\<lparr>array = allocated w, low = 0, len = len s + 1, cap = max newcap (len s + 1)\<rparr>,
         w\<lparr>heap := (heap w)(allocated w :=
              (\<lambda>i. if i < len s then heap w (array s) (low s + i)
                   else if i = len s then x else zero)),
           allocated := allocated w + 1\<rparr>))"

text \<open>\<open>s[1:]\<close>, for a slice that is not empty.\<close>

definition reslice :: "slice \<Rightarrow> slice" where
  "reslice s = s\<lparr>low := low s + 1, len := len s - 1, cap := cap s - 1\<rparr>"

subsection \<open>The methods of EventLoop\<close>

text \<open>
  \<open>[]EventResult{}\<close> is a slice of length and capacity 0. Array number 0 stands for the
  address that Go gives to slices without cells; allocation starts at 1.
\<close>

definition NewEventLoop :: EventLoop where
  "NewEventLoop =
     \<lparr>Events = [], Handlers = Map.empty,
      ProcessedEvents = \<lparr>array = 0, low = 0, len = 0, cap = 0\<rparr>\<rparr>"

text \<open>The state in which \<open>main\<close> starts: a new loop, no goroutine, nothing printed.\<close>

definition start :: world where
  "start = \<lparr>Events = Events NewEventLoop, Handlers = Handlers NewEventLoop,
     ProcessedEvents = ProcessedEvents NewEventLoop,
     heap = (\<lambda>a i. zero), allocated = 1, goroutines = [], stdout = []\<rparr>"

text \<open>\<^verbatim>\<open>e.Handlers[key] = fn\<close>\<close>

definition on :: "string \<Rightarrow> func \<Rightarrow> 'a EventLoop_scheme \<Rightarrow> 'a EventLoop_scheme" where
  "on key fn e = e\<lparr>Handlers := (Handlers e)(key \<mapsto> fn)\<rparr>"

text \<open>\<^verbatim>\<open>e.Events = append(e.Events, event)\<close>\<close>

definition dispatch :: "Event \<Rightarrow> 'a EventLoop_scheme \<Rightarrow> 'a EventLoop_scheme" where
  "dispatch event e = e\<lparr>Events := Events e @ [event]\<rparr>"

text \<open>
  Go's one-valued map index \<open>e.Handlers[key]\<close>: the zero value \<open>nil\<close> when the key is
  absent. The two-valued form \<open>_, exists := e.Handlers[key]\<close> is \<open>Handlers e key \<noteq> None\<close>.
\<close>

definition index :: "(string \<rightharpoonup> func) \<Rightarrow> string \<Rightarrow> func" where
  "index m key = (case m key of None \<Rightarrow> NilFunc | Some fn \<Rightarrow> fn)"

definition printf :: "line \<Rightarrow> world \<Rightarrow> world" where
  "printf l w = w\<lparr>stdout := stdout w @ [l]\<rparr>"

definition produceOutputFor :: "EventResult \<Rightarrow> world \<Rightarrow> world" where
  "produceOutputFor processedEvent w = printf (Output processedEvent) w"

definition processSynchronously :: "Event \<Rightarrow> world \<Rightarrow> world" where
  "processSynchronously event w =
     (case index (Handlers w) (Event.Key event) of
        NilFunc \<Rightarrow> w
      | Func handler \<Rightarrow>
          produceOutputFor \<lparr>Key = Event.Key event, Result = handler (Data event)\<rparr> w)"

text \<open>\<open>go func() { ... }()\<close>: the goroutine is started, its body has not run.\<close>

definition processAsynchronously :: "Event \<Rightarrow> world \<Rightarrow> world" where
  "processAsynchronously event w = w\<lparr>goroutines := goroutines w @ [Spawned event]\<rparr>"

text \<open>A goroutine that has returned is gone from the list.\<close>

definition finished :: "nat \<Rightarrow> goroutine list \<Rightarrow> goroutine list" where
  "finished i gs = take i gs @ drop (Suc i) gs"

text \<open>
  The body of goroutine \<open>i\<close> up to and with the call \<open>append(e.ProcessedEvents, ...)\<close>:
  the handler is looked up when the goroutine runs, not when it was started; the field is
  read and \<open>append\<close> is called on it, which writes a cell of the shared array or fills a
  new array. With a \<open>nil\<close> handler the goroutine returns at once. A step of a goroutine
  that is not there, or not in the state for it, changes nothing.
\<close>

definition goroutine_load :: "nat \<Rightarrow> nat \<Rightarrow> world \<Rightarrow> world" where
  "goroutine_load newcap i w =
     (if i < length (goroutines w) then
        (case goroutines w ! i of
           Spawned event \<Rightarrow>
             (case index (Handlers w) (Event.Key event) of
                NilFunc \<Rightarrow> w\<lparr>goroutines := finished i (goroutines w)\<rparr>
              | Func handler \<Rightarrow>
                  (let result = handler (Data event);
                       r = \<lparr>Key = Event.Key event, Result = result\<rparr>;
                       (s, w1) = go_append newcap (ProcessedEvents w) r w
                   in w1\<lparr>goroutines := (goroutines w)[i := Loaded r s]\<rparr>))
         | Loaded r s \<Rightarrow> w)
      else w)"

text \<open>The assignment \<open>e.ProcessedEvents = ...\<close> of goroutine \<open>i\<close>, after which it returns.\<close>

definition goroutine_store :: "nat \<Rightarrow> world \<Rightarrow> world" where
  "goroutine_store i w =
     (if i < length (goroutines w) then
        (case goroutines w ! i of
           Spawned event \<Rightarrow> w
         | Loaded r s \<Rightarrow>
             w\<lparr>ProcessedEvents := s, goroutines := finished i (goroutines w)\<rparr>)
      else w)"

text \<open>
  The statement \<open>e.ProcessedEvents = append(e.ProcessedEvents, r)\<close> with no other step
  between its read and its write.
\<close>

definition assign_append :: "nat \<Rightarrow> EventResult \<Rightarrow> world \<Rightarrow> world" where
  "assign_append newcap r w =
     (let (s, w1) = go_append newcap (ProcessedEvents w) r w in w1\<lparr>ProcessedEvents := s\<rparr>)"

text \<open>The whole body of goroutine \<open>i\<close> with no other step in between.\<close>

definition goroutine_run :: "nat \<Rightarrow> nat \<Rightarrow> world \<Rightarrow> world" where
  "goroutine_run newcap i w = goroutine_store i (goroutine_load newcap i w)"

text \<open>
  \<open>run\<close>, first half (\<open>if len(e.Events) != 0 { ... }\<close>): poll the first event, print its
  key, and hand it to the synchronous or the asynchronous path when its key is in the map.
\<close>

definition run_dispatch :: "world \<Rightarrow> world" where
  "run_dispatch w =
     (case Events w of
        [] \<Rightarrow> w
      | event # rest \<Rightarrow>
          (let w1 = printf (Received (Event.Key event)) (w\<lparr>Events := rest\<rparr>) in
           if Handlers w1 (Event.Key event) \<noteq> None then
             printf Blocked
               (if IsAsync event then processAsynchronously event w1
                else processSynchronously event w1)
           else printf (NoHandler (Event.Key event)) w1))"

text \<open>
  \<open>run\<close>, second half:
  \<^verbatim>\<open>
  if len(e.ProcessedEvents) != 0 {
      processedEvent := e.ProcessedEvents[0]
      e.ProcessedEvents = e.ProcessedEvents[1:]
      e.produceOutputFor(processedEvent)
  }
  \<close>
\<close>

definition run_drain :: "world \<Rightarrow> world" where
  "run_drain w =
     (if len (ProcessedEvents w) \<noteq> 0 then
        (let processedEvent = heap w (array (ProcessedEvents w)) (low (ProcessedEvents w))
         in produceOutputFor processedEvent
              (w\<lparr>ProcessedEvents := reslice (ProcessedEvents w)\<rparr>))
      else w)"

text \<open>One call of \<open>run\<close> by the driver, no goroutine taking a step during the call.\<close>

definition run :: "world \<Rightarrow> world" where
  "run w = run_drain (run_dispatch w)"

subsection \<open>The program as a transition system\<close>

text \<open>
  The driver (the loop of \<open>main\<close>) calls \<open>on\<close>, \<open>dispatch\<close> and \<open>run\<close>; between two
  calls any goroutine in flight may take a step. A schedule is the list of these steps in
  the order in which they happen. The step \<open>Load newcap i\<close> carries the capacity that the
  runtime gives to the new array, should \<open>append\<close> need one.
\<close>

datatype action =
    On string func
  | Dispatch Event
  | Run
  | Load nat nat
  | Store nat

fun step :: "action \<Rightarrow> world \<Rightarrow> world" where
  "step (On key fn) w = on key fn w"
| "step (Dispatch event) w = dispatch event w"
| "step Run w = run w"
| "step (Load newcap i) w = goroutine_load newcap i w"
| "step (Store i) w = goroutine_store i w"

fun exec :: "action list \<Rightarrow> world \<Rightarrow> world" where
  "exec [] w = w"
| "exec (a # acts) w = exec acts (step a w)"

text \<open>
  The result that executing an event gives under a registry: none when the key is absent
  or bound to \<open>nil\<close>.
\<close>

definition result_of :: "(string \<rightharpoonup> func) \<Rightarrow> Event \<Rightarrow> EventResult list" where
  "result_of m event =
     (case index m (Event.Key event) of
        NilFunc \<Rightarrow> []
      | Func handler \<Rightarrow> [\<lparr>Key = Event.Key event, Result = handler (Data event)\<rparr>])"

text \<open>
  What one step does, read off the state in which it is taken: the event it submits; the
  event it polls, and that event again when its key is absent, when its key is present
  and it is synchronous, when its key is present and it is asynchronous; the result of
  the synchronous event it polls; the result it drains and prints; the event of the
  goroutine that begins its body, and the result that goroutine computes; the result
  whose append it assigns.
\<close>

fun submitted :: "action \<Rightarrow> world \<Rightarrow> Event list" where
  "submitted (Dispatch event) w = [event]"
| "submitted a w = []"

fun polled :: "action \<Rightarrow> world \<Rightarrow> Event list" where
  "polled Run w = take 1 (Events w)"
| "polled a w = []"

definition polled_absent :: "action \<Rightarrow> world \<Rightarrow> Event list" where
  "polled_absent a w = filter (\<lambda>ev. Handlers w (Event.Key ev) = None) (polled a w)"

definition polled_sync :: "action \<Rightarrow> world \<Rightarrow> Event list" where
  "polled_sync a w =
     filter (\<lambda>ev. Handlers w (Event.Key ev) \<noteq> None \<and> \<not> IsAsync ev) (polled a w)"

definition polled_async :: "action \<Rightarrow> world \<Rightarrow> Event list" where
  "polled_async a w =
     filter (\<lambda>ev. Handlers w (Event.Key ev) \<noteq> None \<and> IsAsync ev) (polled a w)"

definition executed_sync :: "action \<Rightarrow> world \<Rightarrow> EventResult list" where
  "executed_sync a w = concat (map (result_of (Handlers w)) (polled_sync a w))"

fun drained :: "action \<Rightarrow> world \<Rightarrow> EventResult list" where
  "drained Run w = take 1 (completed (run_dispatch w))"
| "drained a w = []"

text \<open>The results that one step prints: of the event it executes at once, then of the drain.\<close>

definition emitted :: "action \<Rightarrow> world \<Rightarrow> EventResult list" where
  "emitted a w = executed_sync a w @ drained a w"

fun begun :: "action \<Rightarrow> world \<Rightarrow> Event list" where
  "begun (Load newcap i) w =
     (if i < length (goroutines w) then
        (case goroutines w ! i of Spawned event \<Rightarrow> [event] | Loaded r s \<Rightarrow> [])
      else [])"
| "begun a w = []"

definition computed :: "action \<Rightarrow> world \<Rightarrow> EventResult list" where
  "computed a w = concat (map (result_of (Handlers w)) (begun a w))"

fun appended :: "action \<Rightarrow> world \<Rightarrow> EventResult list" where
  "appended (Store i) w =
     (if i < length (goroutines w) then
        (case goroutines w ! i of Spawned event \<Rightarrow> [] | Loaded r s \<Rightarrow> [r])
      else [])"
| "appended a w = []"

text \<open>The observations of a whole schedule, in order.\<close>

fun hist :: "(action \<Rightarrow> world \<Rightarrow> 'a list) \<Rightarrow> action list \<Rightarrow> world \<Rightarrow> 'a list" where
  "hist f [] w = []"
| "hist f (a # acts) w = f a w @ hist f acts (step a w)"

text \<open>
  The goroutines in flight: the events of those that have not begun, and the results of
  those that are between the call of \<open>append\<close> and the assignment.
\<close>

fun waiting :: "goroutine list \<Rightarrow> Event list" where
  "waiting [] = []"
| "waiting (Spawned event # gs) = event # waiting gs"
| "waiting (Loaded r s # gs) = waiting gs"

fun unassigned :: "goroutine list \<Rightarrow> EventResult list" where
  "unassigned [] = []"
| "unassigned (Spawned event # gs) = unassigned gs"
| "unassigned (Loaded r s # gs) = r # unassigned gs"

text \<open>
  Schedules in which every goroutine runs its whole body as one step, that is, in which
  no append overlaps another append or a drain.
\<close>

datatype serial_action =
    Register string func
  | Submit Event
  | Tick
  | Complete nat nat

fun expand :: "serial_action \<Rightarrow> action list" where
  "expand (Register key fn) = [On key fn]"
| "expand (Submit event) = [Dispatch event]"
| "expand Tick = [Run]"
| "expand (Complete newcap i) = [Load newcap i, Store i]"

definition serialized :: "serial_action list \<Rightarrow> action list" where
  "serialized sched = concat (map expand sched)"

text \<open>A goroutine between the call of \<open>append\<close> and the assignment of its result.\<close>

fun in_append :: "goroutine \<Rightarrow> bool" where
  "in_append (Spawned event) = False"
| "in_append (Loaded r s) = True"

definition quiescent :: "world \<Rightarrow> bool" where
  "quiescent w = (filter in_append (goroutines w) = [])"

text \<open>Mutual exclusion of the appends: at most one goroutine is inside its append.\<close>

definition mutex :: "world \<Rightarrow> bool" where
  "mutex w = (length (filter in_append (goroutines w)) \<le> 1)"

text \<open>The result that a goroutine in flight is to append, under a registry.\<close>

fun pending :: "(string \<rightharpoonup> func) \<Rightarrow> goroutine \<Rightarrow> EventResult list" where
  "pending m (Spawned event) = result_of m event"
| "pending m (Loaded r s) = [r]"

text \<open>The keys that a schedule registers.\<close>

fun on_keys :: "action list \<Rightarrow> string list" where
  "on_keys [] = []"
| "on_keys (On key fn # acts) = key # on_keys acts"
| "on_keys (a # acts) = on_keys acts"

subsection \<open>Reading standard output\<close>

fun received :: "line list \<Rightarrow> string list" where
  "received [] = []"
| "received (Received key # ls) = key # received ls"
| "received (l # ls) = received ls"

fun no_handler :: "line list \<Rightarrow> string list" where
  "no_handler [] = []"
| "no_handler (NoHandler key # ls) = key # no_handler ls"
| "no_handler (l # ls) = no_handler ls"

fun outputs :: "line list \<Rightarrow> EventResult list" where
  "outputs [] = []"
| "outputs (Output r # ls) = r # outputs ls"
| "outputs (l # ls) = outputs ls"

section \<open>The helpers of main.go\<close>

subsection \<open>The key generator\<close>

text \<open>
  \<^verbatim>\<open>func generateUniqueEventKey(base string, id int) string { return fmt.Sprintf("%s-%d", base, id) }\<close>
  Go's \<open>int\<close> is taken at its 64-bit width. The verb \<open>%d\<close> prints the signed value in
  decimal: the digits of the magnitude, most significant first and with no leading zero,
  after a minus sign when the value is negative.
\<close>

fun digits :: "nat \<Rightarrow> string" where
  "digits n =
     (if n < 10 then [char_of (48 + n)]
      else digits (n div 10) @ [char_of (48 + n mod 10)])"

definition itoa :: "int \<Rightarrow> string" where
  "itoa n = (if n < 0 then CHR ''-'' # digits (nat (- n)) else digits (nat n))"

definition generateUniqueEventKey :: "string \<Rightarrow> 64 word \<Rightarrow> string" where
  "generateUniqueEventKey base eid = base @ ''-'' @ itoa (sint eid)"

text \<open>Reading a decimal numeral back, to say what "the decimal counter" is.\<close>

definition digit_val :: "char \<Rightarrow> nat" where
  "digit_val c = of_char c - 48"

definition atou :: "string \<Rightarrow> nat" where
  "atou s = foldl (\<lambda>a c. 10 * a + digit_val c) 0 s"

definition atoi :: "string \<Rightarrow> int" where
  "atoi s =
     (case s of
        [] \<Rightarrow> 0
      | c # cs \<Rightarrow> if c = CHR ''-'' then - int (atou cs) else int (atou s))"

subsection \<open>The file reader\<close>

text \<open>
  \<open>readFile\<close> calls the operating system through Go's \<open>os\<close> and \<open>io\<close> packages, which
  are no part of main.go. What these calls answer is a parameter of the model: one answer
  for each call whose result the code looks at. The results of \<open>file.WriteString\<close> and
  \<open>file.Seek\<close> are thrown away by the code and are no parameters.
\<close>

datatype errno = ENOENT | EEXIST | ENOTEMPTY | EACCES | EISDIR | EIO | ENOSPC | EMFILE

text \<open>An \<open>*fs.PathError\<close>: the operation that failed and the error number.\<close>

type_synonym error = "string \<times> errno"

record os_answers =
  ReadFile :: "error + string"
  Create :: "error option"
  ReadAll :: "error + string"

text \<open>
  \<open>os.IsExist(err)\<close> reports whether the error says that a file or directory already
  exists; in package \<open>syscall\<close> these are the error numbers \<open>EEXIST\<close> and \<open>ENOTEMPTY\<close>.
  It is not the negation of \<open>os.IsNotExist\<close>.
\<close>

definition IsExist :: "error \<Rightarrow> bool" where
  "IsExist err = (snd err = EEXIST \<or> snd err = ENOTEMPTY)"

fun strerror :: "errno \<Rightarrow> string" where
  "strerror ENOENT = ''no such file or directory''"
| "strerror EEXIST = ''file exists''"
| "strerror ENOTEMPTY = ''directory not empty''"
| "strerror EACCES = ''permission denied''"
| "strerror EISDIR = ''is a directory''"
| "strerror EIO = ''input/output error''"
| "strerror ENOSPC = ''no space left on device''"
| "strerror EMFILE = ''too many open files''"

text \<open>The verb \<open>%s\<close> on a path error: \<open>op path: message\<close>.\<close>

definition Error :: "string \<Rightarrow> error \<Rightarrow> string" where
  "Error path err = fst err @ '' '' @ path @ '': '' @ strerror (snd err)"

text \<open>The calls that \<open>readFile\<close> makes, in order, \<open>fmt.Printf("Exists: ...")\<close> among them.\<close>

datatype oscall =
    CallReadFile string
  | PrintExists bool
  | CallCreate string
  | CallWriteString string
  | CallSeek
  | CallReadAll

text \<open>
  \<^verbatim>\<open>
  data, err := os.ReadFile(filename)
  if err != nil {
      exists := os.IsExist(err)
      fmt.Printf("Exists: %v\n", exists)
      if !exists {
          file, err := os.Create(filename)
          file.WriteString("New file created")
          if err != nil { return fmt.Sprintf("Error creating file: %s", err) }
          file.Seek(0, 0)
          data, err := io.ReadAll(file)
          if err != nil { return fmt.Sprintf("Error reading file: %s", err) }
          return string(data)
      }
      return fmt.Sprintf("Error reading file: %s", err)
  }
  return string(data)
  \<close>
  \<open>WriteString\<close> is called before the error of \<open>os.Create\<close> is looked at; on the
  \<open>nil\<close> file of a failed \<open>Create\<close> it returns an error and does nothing.
\<close>

definition readFile :: "os_answers \<Rightarrow> string \<Rightarrow> string \<times> oscall list" where
  "readFile os filename =
     (case ReadFile os of
        Inr data \<Rightarrow> (data, [CallReadFile filename])
      | Inl err \<Rightarrow>
          (let exists = IsExist err in
           if \<not> exists then
             (case Create os of
                Some err1 \<Rightarrow>
                  (''Error creating file: '' @ Error filename err1,
                   [CallReadFile filename, PrintExists exists, CallCreate filename,
                    CallWriteString ''New file created''])
              | None \<Rightarrow>
                  (case ReadAll os of
                     Inl err2 \<Rightarrow>
                       (''Error reading file: '' @ Error filename err2,
                        [CallReadFile filename, PrintExists exists, CallCreate filename,
                         CallWriteString ''New file created'', CallSeek, CallReadAll])
                   | Inr data \<Rightarrow>
                       (data,
                        [CallReadFile filename, PrintExists exists, CallCreate filename,
                         CallWriteString ''New file created'', CallSeek, CallReadAll])))
           else
             (''Error reading file: '' @ Error filename err,
              [CallReadFile filename, PrintExists exists])))"

subsection \<open>A session of main\<close>

text \<open>
  Menu entry 1 of \<open>main\<close>, "Wish me Hello": a fresh key, the handler
  \<open>func(data string) string { return fmt.Sprintf("Hello! %s", data) }\<close> registered under
  it, the event submitted, then \<open>eventLoop.run()\<close>. Menu entry 4 is \<open>eventLoop.run()\<close>
  alone.
\<close>

definition hello :: "string \<Rightarrow> string" where
  "hello data = ''Hello! '' @ data"

definition hello_event :: "64 word \<Rightarrow> bool \<Rightarrow> Event" where
  "hello_event eventID async =
     \<lparr>Event.Key = generateUniqueEventKey ''hello'' eventID,
      Data = ''How are you doing today?'', IsAsync = async\<rparr>"

definition hello_result :: "64 word \<Rightarrow> EventResult" where
  "hello_result eventID =
     \<lparr>Key = generateUniqueEventKey ''hello'' eventID,
      Result = ''Hello! How are you doing today?''\<rparr>"

definition wish_hello :: "64 word \<Rightarrow> bool \<Rightarrow> action list" where
  "wish_hello eventID async =
     [On (generateUniqueEventKey ''hello'' eventID) (Func hello),
      Dispatch (hello_event eventID async), Run]"

text \<open>Menu entry 1 twice, asynchronously: two goroutines are in flight.\<close>

definition two_hellos :: "action list" where
  "two_hellos = wish_hello 0 True @ wish_hello 1 True"

text \<open>
  Two asynchronous hellos; both goroutines read the empty queue and call \<open>append\<close> before
  either assigns. The slice they read has no capacity, so each \<open>append\<close> fills a new
  array.
\<close>

definition both_loaded :: "action list" where
  "both_loaded = two_hellos @ [Load 1 0, Load 1 1]"

definition lost_update :: "action list" where
  "lost_update = both_loaded @ [Store 0, Store 0]"

text \<open>
  Two asynchronous hellos; the first goroutine finishes, the second reads the queue and
  calls \<open>append\<close>, the driver drains the first result (menu entry 4), the second
  goroutine assigns, and the driver drains twice more. The slice that the second goroutine
  reads is full (length 1 in an array of 1), so its \<open>append\<close> copies the first result into
  a new array.
\<close>

definition stale_append :: "action list" where
  "stale_append = two_hellos @ [Load 1 0, Store 0, Load 2 0, Run, Store 0, Run, Run]"

text \<open>
  Five asynchronous hellos. Three goroutines run one after another, which leaves a queue
  of three results in an array of four cells. The last two goroutines then both read that
  queue and call \<open>append\<close>: both write the spare cell of the shared array.
\<close>

definition five_hellos :: "action list" where
  "five_hellos =
     wish_hello 0 True @ wish_hello 1 True @ wish_hello 2 True @ wish_hello 3 True @
     wish_hello 4 True"

definition spare_cell :: "action list" where
  "spare_cell = five_hellos @ [Load 1 0, Store 0, Load 2 0, Store 0, Load 4 0, Store 0]"

definition overwritten :: "action list" where
  "overwritten = spare_cell @ [Load 8 0, Load 8 1, Store 0]"

text \<open>
  A session in which the goroutine runs its whole body in one step: an asynchronous hello,
  a synchronous hello, the goroutine of the first, and two more calls of \<open>run\<close>.
\<close>

definition serial_session :: "serial_action list" where
  "serial_session =
     [Register (generateUniqueEventKey ''hello'' 0) (Func hello), Submit (hello_event 0 True),
      Tick,
      Register (generateUniqueEventKey ''hello'' 1) (Func hello), Submit (hello_event 1 False),
      Tick, Complete 1 0, Tick, Tick]"

definition hello_registered :: world where
  "hello_registered =
     on (generateUniqueEventKey ''hello'' 1) (Func hello)
       (on (generateUniqueEventKey ''hello'' 0) (Func hello) start)"

text \<open>Three events for two registered keys: the key of the third is absent.\<close>

definition hello_queue :: "Event list" where
  "hello_queue = [hello_event 0 True, hello_event 1 False, hello_event 2 True]"

text \<open>
  Two answers of the operating system to \<open>readFile "hello.txt"\<close>. In the first the file
  is there and reading it fails with an input/output error, after which \<open>os.Create\<close>
  succeeds. In the second the file is not there and the device is full: the file is
  created, the write of the placeholder fails, and the file reads back empty.
\<close>

definition read_fails :: os_answers where
  "read_fails =
     \<lparr>ReadFile = Inl (''read'', EIO), Create = None, ReadAll = Inr ''New file created''\<rparr>"

definition device_full :: os_answers where
  "device_full = \<lparr>ReadFile = Inl (''open'', ENOENT), Create = None, ReadAll = Inr []\<rparr>"

text \<open>A loop with three events pending and three results completed.\<close>

definition three_and_three :: world where
  "three_and_three =
     start\<lparr>Events := [hello_event 0 False, hello_event 1 True, hello_event 2 False],
           ProcessedEvents := \<lparr>array = 1, low = 0, len = 3, cap = 4\<rparr>,
           heap := (\<lambda>a i. if a = 1 \<and> i = 0 then hello_result 3
                           else if a = 1 \<and> i = 1 then hello_result 4
                           else if a = 1 \<and> i = 2 then hello_result 5 else zero),
           allocated := 2\<rparr>"

section \<open>Properties\<close>

subsection \<open>Slices\<close>

lemma length_elements [simp]: "length (elements h s) = len s"
  by (simp add: elements_def)

lemma elements_Nil_iff: "(elements h s = []) = (len s = 0)"
  by (simp add: elements_def)

lemma map_upt_tl: "tl (map f [0..<n]) = map (\<lambda>i. f (Suc i)) [0..<n - 1]"
proof (cases n)
  case 0
  then show ?thesis by simp
next
  case (Suc m)
  have "map f [0..<Suc m] = f 0 # map (\<lambda>i. f (Suc i)) [0..<m]"
    by (simp add: upt_conv_Cons map_Suc_upt [symmetric] del: upt_Suc)
  with Suc show ?thesis by simp
qed

lemma elements_reslice: "elements h (reslice s) = tl (elements h s)"
  by (simp add: elements_def reslice_def map_upt_tl)

lemma elements_first:
  "len s \<noteq> 0 \<Longrightarrow> take 1 (elements h s) = [h (array s) (low s)]"
proof -
  assume "len s \<noteq> 0"
  then obtain m where "len s = Suc m" by (cases "len s") simp_all
  then show ?thesis by (simp add: elements_def upt_conv_Cons del: upt_Suc)
qed

lemma go_append_elements:
  "go_append newcap s x w = (s1, w1) \<Longrightarrow> elements (heap w1) s1 = elements (heap w) s @ [x]"
  by (auto simp: go_append_def elements_def split: if_splits)

lemma go_append_frame:
  "go_append newcap s x w = (s1, w1) \<Longrightarrow>
   Events w1 = Events w \<and> Handlers w1 = Handlers w \<and> ProcessedEvents w1 = ProcessedEvents w \<and>
   goroutines w1 = goroutines w \<and> stdout w1 = stdout w"
  by (auto simp: go_append_def split: if_splits)

subsection \<open>The two halves of run\<close>

lemmas loop_defs = printf_def produceOutputFor_def processSynchronously_def
  processAsynchronously_def

lemma completed_Nil_iff: "(completed w = []) = (len (ProcessedEvents w) = 0)"
  by (simp add: completed_def elements_Nil_iff)

lemma run_dispatch_Nil: "Events w = [] \<Longrightarrow> run_dispatch w = w"
  by (simp add: run_dispatch_def)

lemma run_drain_Nil: "completed w = [] \<Longrightarrow> run_drain w = w"
  by (simp add: run_drain_def completed_Nil_iff)

lemma run_dispatch_absent:
  "Events w = ev # rest \<Longrightarrow> Handlers w (Event.Key ev) = None \<Longrightarrow>
   run_dispatch w =
     w\<lparr>Events := rest,
       stdout := stdout w @ [Received (Event.Key ev), NoHandler (Event.Key ev)]\<rparr>"
  by (simp add: run_dispatch_def loop_defs Let_def)

lemma run_dispatch_sync:
  "Events w = ev # rest \<Longrightarrow> Handlers w (Event.Key ev) = Some (Func h) \<Longrightarrow> \<not> IsAsync ev \<Longrightarrow>
   run_dispatch w =
     w\<lparr>Events := rest,
       stdout := stdout w @ [Received (Event.Key ev),
         Output \<lparr>Key = Event.Key ev, Result = h (Data ev)\<rparr>, Blocked]\<rparr>"
  by (simp add: run_dispatch_def loop_defs Let_def index_def)

lemma run_dispatch_sync_nil:
  "Events w = ev # rest \<Longrightarrow> Handlers w (Event.Key ev) = Some NilFunc \<Longrightarrow> \<not> IsAsync ev \<Longrightarrow>
   run_dispatch w =
     w\<lparr>Events := rest, stdout := stdout w @ [Received (Event.Key ev), Blocked]\<rparr>"
  by (simp add: run_dispatch_def loop_defs Let_def index_def)

lemma run_dispatch_async:
  "Events w = ev # rest \<Longrightarrow> Handlers w (Event.Key ev) = Some fn \<Longrightarrow> IsAsync ev \<Longrightarrow>
   run_dispatch w =
     w\<lparr>Events := rest, goroutines := goroutines w @ [Spawned ev],
       stdout := stdout w @ [Received (Event.Key ev), Blocked]\<rparr>"
  by (simp add: run_dispatch_def loop_defs Let_def index_def)

lemma Events_run_dispatch [simp]: "Events (run_dispatch w) = tl (Events w)"
  by (simp add: run_dispatch_def loop_defs Let_def split: list.split func.split)

lemma ProcessedEvents_run_dispatch [simp]:
  "ProcessedEvents (run_dispatch w) = ProcessedEvents w"
  by (simp add: run_dispatch_def loop_defs Let_def split: list.split func.split)

lemma heap_run_dispatch [simp]: "heap (run_dispatch w) = heap w"
  by (simp add: run_dispatch_def loop_defs Let_def split: list.split func.split)

lemma allocated_run_dispatch [simp]: "allocated (run_dispatch w) = allocated w"
  by (simp add: run_dispatch_def loop_defs Let_def split: list.split func.split)

lemma completed_run_dispatch [simp]: "completed (run_dispatch w) = completed w"
  by (simp add: completed_def)

lemma Handlers_run_dispatch [simp]: "Handlers (run_dispatch w) = Handlers w"
  by (simp add: run_dispatch_def loop_defs Let_def split: list.split func.split)

lemma Events_run_drain [simp]: "Events (run_drain w) = Events w"
  by (simp add: run_drain_def loop_defs Let_def)

lemma heap_run_drain [simp]: "heap (run_drain w) = heap w"
  by (simp add: run_drain_def loop_defs Let_def)

lemma allocated_run_drain [simp]: "allocated (run_drain w) = allocated w"
  by (simp add: run_drain_def loop_defs Let_def)

lemma ProcessedEvents_run_drain:
  "ProcessedEvents (run_drain w) =
     (if len (ProcessedEvents w) \<noteq> 0 then reslice (ProcessedEvents w) else ProcessedEvents w)"
  by (simp add: run_drain_def loop_defs Let_def)

lemma completed_run_drain [simp]: "completed (run_drain w) = tl (completed w)"
proof (cases "len (ProcessedEvents w) = 0")
  case True
  then show ?thesis by (simp add: run_drain_def completed_def elements_def)
next
  case False
  then show ?thesis
    by (simp add: completed_def ProcessedEvents_run_drain elements_reslice)
qed

lemma Handlers_run_drain [simp]: "Handlers (run_drain w) = Handlers w"
  by (simp add: run_drain_def loop_defs Let_def)

lemma goroutines_run_drain [simp]: "goroutines (run_drain w) = goroutines w"
  by (simp add: run_drain_def loop_defs Let_def)

lemma stdout_run_drain:
  "stdout (run_drain w) = stdout w @ map Output (take 1 (completed w))"
proof (cases "len (ProcessedEvents w) = 0")
  case True
  then show ?thesis by (simp add: run_drain_def completed_def elements_def)
next
  case False
  then show ?thesis
    by (simp add: run_drain_def loop_defs Let_def completed_def elements_first
        del: One_nat_def)
qed

subsection \<open>One call of run\<close>

text \<open>
  Claim C10. When the pending queue and the completed queue are both empty, a call of
  \<open>run\<close> changes nothing: the registry, both queues, the goroutines and standard output
  are as before (the whole state is equal), and there is no error to return.
\<close>

theorem run_idle_noop:
  "Events w = [] \<Longrightarrow> completed w = [] \<Longrightarrow> run w = w"
  by (simp add: run_def run_dispatch_Nil run_drain_Nil)

theorem run_idle_noop_witness: "run start = start"
  using run_idle_noop [of start]
  by (simp add: start_def NewEventLoop_def completed_def elements_def)

text \<open>
  Claim C2. In every state one call of \<open>run\<close> removes the first pending event, if there is
  one, and the first completed result, if there is one, and nothing else from either queue:
  each queue loses at most one element. With three events pending and three results
  completed it leaves two and two.
\<close>

theorem run_at_most_one:
  "Events (run w) = drop 1 (Events w) \<and>
   completed (run w) = drop 1 (completed w) \<and>
   length (Events w) - length (Events (run w)) \<le> 1 \<and>
   length (completed w) - length (completed (run w)) \<le> 1 \<and>
   (length (Events w) = 3 \<and> length (completed w) = 3 \<longrightarrow>
      length (Events (run w)) = 2 \<and> length (completed (run w)) = 2)"
  by (auto simp add: run_def drop_Suc)

theorem run_at_most_one_witness:
  "length (Events three_and_three) = 3 \<and> length (completed three_and_three) = 3 \<and>
   length (Events (run three_and_three)) = 2 \<and>
   length (completed (run three_and_three)) = 2"
  using run_at_most_one [of three_and_three]
  by (simp add: three_and_three_def completed_def)

text \<open>
  Claim C4. When the event at the head of the pending queue has a key that is not in the
  registry, the call of \<open>run\<close> that polls it returns (\<open>run\<close> has no failing branch), removes
  the event from the pending queue, prints "Received Event" and "No handler found" for its
  key, and produces no result for it: no goroutine is started, nothing is added to the
  completed queue, and the only output line that follows is the drain of the result that
  was already at the head of the completed queue, if any.
\<close>

theorem no_handler_no_crash:
  assumes "Events w = ev # rest" and "Handlers w (Event.Key ev) = None"
  shows "Events (run w) = rest \<and>
     Handlers (run w) = Handlers w \<and>
     goroutines (run w) = goroutines w \<and>
     heap (run w) = heap w \<and>
     completed (run w) = drop 1 (completed w) \<and>
     stdout (run w) = stdout w @ [Received (Event.Key ev), NoHandler (Event.Key ev)]
        @ map Output (take 1 (completed w))"
proof -
  let ?w1 = "w\<lparr>Events := rest,
       stdout := stdout w @ [Received (Event.Key ev), NoHandler (Event.Key ev)]\<rparr>"
  have d: "run_dispatch w = ?w1" using assms by (rule run_dispatch_absent)
  have c: "completed ?w1 = completed w" by (simp add: completed_def)
  show ?thesis
    unfolding run_def d by (simp add: stdout_run_drain c drop_Suc)
qed

theorem no_handler_no_crash_witness:
  "Events (run (dispatch (hello_event 0 True) start)) = [] \<and>
   goroutines (run (dispatch (hello_event 0 True) start)) = [] \<and>
   completed (run (dispatch (hello_event 0 True) start)) = [] \<and>
   stdout (run (dispatch (hello_event 0 True) start)) =
     [Received (generateUniqueEventKey ''hello'' 0),
      NoHandler (generateUniqueEventKey ''hello'' 0)]"
  using no_handler_no_crash [of "dispatch (hello_event 0 True) start" "hello_event 0 True" "[]"]
  by (simp add: dispatch_def start_def NewEventLoop_def hello_event_def completed_def
      elements_def)

subsection \<open>The key generator\<close>

declare digits.simps [simp del]

lemma digit_val_char_of: "(d::nat) < 10 \<Longrightarrow> digit_val (char_of (48 + d)) = d"
  by (simp add: digit_val_def)

lemma atou_snoc: "atou (s @ [c]) = 10 * atou s + digit_val c"
  by (simp add: atou_def)

lemma atou_digits: "atou (digits n) = n"
proof (induction n rule: digits.induct)
  case (1 n)
  show ?case
  proof (cases "n < 10")
    case True
    then show ?thesis
      by (subst digits.simps) (simp add: atou_def digit_val_char_of)
  next
    case False
    with "1" have "atou (digits (n div 10)) = n div 10" by simp
    with False show ?thesis
      by (subst digits.simps) (simp add: atou_snoc digit_val_char_of)
  qed
qed

lemma digits_not_Nil: "digits n \<noteq> []"
  by (subst digits.simps) simp

lemma char_of_digit_not_minus: "(d::nat) < 10 \<Longrightarrow> char_of (48 + d) \<noteq> CHR ''-''"
proof
  assume d: "d < 10" and "char_of (48 + d) = CHR ''-''"
  then have "(of_char (char_of (48 + d)) :: nat) = of_char CHR ''-''" by simp
  with d show False by simp
qed

lemma set_digits: "c \<in> set (digits n) \<Longrightarrow> \<exists>d::nat. d < 10 \<and> c = char_of (48 + d)"
proof (induction n rule: digits.induct)
  case (1 n)
  show ?case
  proof (cases "n < 10")
    case True
    with "1.prems" show ?thesis
      by (subst (asm) digits.simps) auto
  next
    case False
    from "1.prems" False have "c \<in> set (digits (n div 10)) \<or> c = char_of (48 + n mod 10)"
      by (subst (asm) digits.simps) auto
    then show ?thesis
    proof
      assume "c \<in> set (digits (n div 10))"
      with "1.IH" False show ?thesis by simp
    next
      assume "c = char_of (48 + n mod 10)"
      moreover have "n mod 10 < 10" by simp
      ultimately show ?thesis by blast
    qed
  qed
qed

lemma hd_digits_not_minus: "hd (digits n) \<noteq> CHR ''-''"
proof -
  have "hd (digits n) \<in> set (digits n)" by (simp add: digits_not_Nil)
  then obtain d :: nat where "d < 10" "hd (digits n) = char_of (48 + d)"
    using set_digits by blast
  then show ?thesis by (simp add: char_of_digit_not_minus)
qed

lemma digits_leading: "hd (digits n) = CHR ''0'' \<Longrightarrow> n = 0"
proof (induction n rule: digits.induct)
  case (1 n)
  show ?case
  proof (cases "n < 10")
    case True
    with "1.prems" have "char_of (48 + n) = CHR ''0''"
      by (subst (asm) digits.simps) simp
    then have "(of_char (char_of (48 + n)) :: nat) = of_char CHR ''0''" by simp
    with True show ?thesis by simp
  next
    case False
    with "1.prems" have "hd (digits (n div 10)) = CHR ''0''"
      by (subst (asm) digits.simps) (simp add: digits_not_Nil)
    with "1.IH" False have "n div 10 = 0" by simp
    with False show ?thesis by simp
  qed
qed

lemma atoi_itoa: "atoi (itoa n) = n"
proof (cases "n < 0")
  case True
  then show ?thesis by (simp add: atoi_def itoa_def atou_digits)
next
  case False
  obtain c cs where cs: "digits (nat n) = c # cs"
    using digits_not_Nil [of "nat n"] by (cases "digits (nat n)") auto
  with hd_digits_not_minus [of "nat n"] have "c \<noteq> CHR ''-''" by simp
  with False cs atou_digits [of "nat n"] show ?thesis
    by (simp add: atoi_def itoa_def)
qed

lemma itoa_inj: "itoa m = itoa n \<Longrightarrow> m = n"
  by (metis atoi_itoa)

lemma key_inj:
  "(generateUniqueEventKey base i = generateUniqueEventKey base j) = (i = j)"
  by (auto simp: generateUniqueEventKey_def dest!: itoa_inj signed_word_eqI)

lemma hello_key_0: "generateUniqueEventKey ''hello'' 0 = ''hello-0''"
  by code_simp

lemma hello_key_1: "generateUniqueEventKey ''hello'' 1 = ''hello-1''"
  by code_simp

lemma hello_key_2: "generateUniqueEventKey ''hello'' 2 = ''hello-2''"
  by code_simp

lemma hello_key_3: "generateUniqueEventKey ''hello'' 3 = ''hello-3''"
  by code_simp

lemma hello_key_4: "generateUniqueEventKey ''hello'' 4 = ''hello-4''"
  by code_simp

lemmas hello_keys = hello_key_0 hello_key_1 hello_key_2 hello_key_3 hello_key_4

lemma key_examples:
  "generateUniqueEventKey ''read-file'' 12 = ''read-file-12''"
  "generateUniqueEventKey ''fetch-from-api'' (- 7) = ''fetch-from-api--7''"
  by code_simp+

lemma char_of_digit:
  "char_of (48 :: nat) = CHR ''0''" "char_of (49 :: nat) = CHR ''1''"
  "char_of (50 :: nat) = CHR ''2''" "char_of (51 :: nat) = CHR ''3''"
  "char_of (52 :: nat) = CHR ''4''" "char_of (53 :: nat) = CHR ''5''"
  "char_of (54 :: nat) = CHR ''6''" "char_of (55 :: nat) = CHR ''7''"
  "char_of (56 :: nat) = CHR ''8''" "char_of (57 :: nat) = CHR ''9''"
  by code_simp+

lemma digit_char: "(d::nat) < 10 \<Longrightarrow> char_of (48 + d) \<in> set ''0123456789''"
proof -
  assume "d < 10"
  then have "d = 0 \<or> d = 1 \<or> d = 2 \<or> d = 3 \<or> d = 4 \<or> d = 5 \<or> d = 6 \<or> d = 7 \<or> d = 8 \<or> d = 9"
    by arith
  then show ?thesis by (elim disjE) (simp_all add: char_of_digit)
qed

lemma digits_chars: "set (digits n) \<subseteq> set ''0123456789''"
proof
  fix c
  assume "c \<in> set (digits n)"
  then obtain d :: nat where "d < 10" and "c = char_of (48 + d)"
    using set_digits by blast
  then show "c \<in> set ''0123456789''" by (simp only: digit_char)
qed

lemma digits_0: "digits 0 = ''0''"
  by (subst digits.simps) (simp add: char_of_digit)

lemma digits_canonical: "hd (digits n) = CHR ''0'' \<Longrightarrow> digits n = ''0''"
  using digits_leading [of n] by (auto simp: digits_0)

lemma itoa_decimal:
  "\<exists>ds. itoa n = (if n < 0 then CHR ''-'' # ds else ds) \<and> ds \<noteq> [] \<and>
     set ds \<subseteq> set ''0123456789'' \<and> (hd ds = CHR ''0'' \<longrightarrow> ds = ''0'') \<and>
     int (atou ds) = \<bar>n\<bar>"
proof (cases "n < 0")
  case True
  have "itoa n = CHR ''-'' # digits (nat (- n))" using True by (simp add: itoa_def)
  moreover have "int (atou (digits (nat (- n)))) = \<bar>n\<bar>" using True by (simp add: atou_digits)
  ultimately show ?thesis
    using True digits_not_Nil digits_chars digits_canonical by (intro exI [of _ "digits (nat (- n))"]) simp
next
  case False
  have "itoa n = digits (nat n)" using False by (simp add: itoa_def)
  moreover have "int (atou (digits (nat n))) = \<bar>n\<bar>" using False by (simp add: atou_digits)
  ultimately show ?thesis
    using False digits_not_Nil digits_chars digits_canonical by (intro exI [of _ "digits (nat n)"]) simp
qed

text \<open>
  Claim C9. The key generator is a function of its two arguments alone. Its value is the
  base, a hyphen, and the decimal numeral of the counter: a minus sign when the counter is
  negative, then a non-empty string of the characters 0 to 9 with no leading zero whose
  value is the magnitude of the counter. What follows the base and the hyphen reads back
  as the counter. For one base, two counters give the same key only when they are the same
  counter.
\<close>

theorem key_format:
  "(\<exists>ds. generateUniqueEventKey base i =
        base @ ''-'' @ (if sint i < 0 then CHR ''-'' # ds else ds) \<and>
      ds \<noteq> [] \<and> set ds \<subseteq> set ''0123456789'' \<and> (hd ds = CHR ''0'' \<longrightarrow> ds = ''0'') \<and>
      int (atou ds) = \<bar>sint i\<bar>) \<and>
   atoi (drop (length base + 1) (generateUniqueEventKey base i)) = sint i \<and>
   (generateUniqueEventKey base i = generateUniqueEventKey base j) = (i = j)"
proof -
  obtain ds where "itoa (sint i) = (if sint i < 0 then CHR ''-'' # ds else ds)"
    and "ds \<noteq> []" and "set ds \<subseteq> set ''0123456789''"
    and "hd ds = CHR ''0'' \<longrightarrow> ds = ''0''" and "int (atou ds) = \<bar>sint i\<bar>"
    using itoa_decimal [of "sint i"] by blast
  then have "\<exists>ds. generateUniqueEventKey base i =
        base @ ''-'' @ (if sint i < 0 then CHR ''-'' # ds else ds) \<and>
      ds \<noteq> [] \<and> set ds \<subseteq> set ''0123456789'' \<and> (hd ds = CHR ''0'' \<longrightarrow> ds = ''0'') \<and>
      int (atou ds) = \<bar>sint i\<bar>"
    unfolding generateUniqueEventKey_def by (intro exI [of _ ds]) simp
  moreover have "atoi (drop (length base + 1) (generateUniqueEventKey base i)) = sint i"
    by (simp add: generateUniqueEventKey_def atoi_itoa)
  ultimately show ?thesis using key_inj [of base i j] by blast
qed

theorem key_format_witness:
  "generateUniqueEventKey ''hello'' 0 = ''hello-0'' \<and>
   generateUniqueEventKey ''hello'' 0 \<noteq> generateUniqueEventKey ''hello'' 1"
proof -
  have "generateUniqueEventKey ''hello'' 0 \<noteq> generateUniqueEventKey ''hello'' 1"
    using key_format [of "''hello''" 0 1, THEN conjunct2, THEN conjunct2] by simp
  with hello_key_0 show ?thesis by blast
qed

subsection \<open>The two execution paths\<close>

lemma finished_append_last: "finished (length gs) (gs @ [g]) = gs"
  by (simp add: finished_def)

lemma finished_update: "finished i (gs[i := g]) = finished i gs"
  by (simp add: finished_def)

lemma processSynchronously_Func:
  "Handlers w (Event.Key ev) = Some (Func h) \<Longrightarrow>
   processSynchronously ev w =
     w\<lparr>stdout := stdout w @ [Output \<lparr>Key = Event.Key ev, Result = h (Data ev)\<rparr>]\<rparr>"
  by (simp add: loop_defs index_def)

lemma completed_assign_append [simp]:
  "completed (assign_append newcap r w) = completed w @ [r]"
proof -
  obtain s w1 where g: "go_append newcap (ProcessedEvents w) r w = (s, w1)"
    by (cases "go_append newcap (ProcessedEvents w) r w")
  from go_append_elements [OF g] show ?thesis
    by (simp add: assign_append_def g completed_def)
qed

lemma frame_assign_append [simp]:
  "Events (assign_append newcap r w) = Events w"
  "Handlers (assign_append newcap r w) = Handlers w"
  "goroutines (assign_append newcap r w) = goroutines w"
  "stdout (assign_append newcap r w) = stdout w"
proof -
  obtain s w1 where g: "go_append newcap (ProcessedEvents w) r w = (s, w1)"
    by (cases "go_append newcap (ProcessedEvents w) r w")
  from go_append_frame [OF g]
  show "Events (assign_append newcap r w) = Events w"
    and "Handlers (assign_append newcap r w) = Handlers w"
    and "goroutines (assign_append newcap r w) = goroutines w"
    and "stdout (assign_append newcap r w) = stdout w"
    by (simp_all add: assign_append_def g)
qed

lemma goroutine_load_index_Func:
  assumes "i < length (goroutines w)" and "goroutines w ! i = Spawned ev"
    and "index (Handlers w) (Event.Key ev) = Func h"
    and "go_append newcap (ProcessedEvents w) \<lparr>Key = Event.Key ev, Result = h (Data ev)\<rparr> w
          = (s, w1)"
  shows "goroutine_load newcap i w =
     w1\<lparr>goroutines :=
          (goroutines w)[i := Loaded \<lparr>Key = Event.Key ev, Result = h (Data ev)\<rparr> s]\<rparr>"
  using assms by (simp add: goroutine_load_def Let_def)

lemma goroutine_load_Nil:
  "i < length (goroutines w) \<Longrightarrow> goroutines w ! i = Spawned ev \<Longrightarrow>
   index (Handlers w) (Event.Key ev) = NilFunc \<Longrightarrow>
   goroutine_load newcap i w = w\<lparr>goroutines := finished i (goroutines w)\<rparr>"
  by (simp add: goroutine_load_def)

lemma goroutine_store_Loaded:
  "i < length (goroutines w) \<Longrightarrow> goroutines w ! i = Loaded r s \<Longrightarrow>
   goroutine_store i w = w\<lparr>ProcessedEvents := s, goroutines := finished i (goroutines w)\<rparr>"
  by (simp add: goroutine_store_def)

lemma goroutine_run_index_Func:
  assumes i: "i < length (goroutines w)" and ev: "goroutines w ! i = Spawned ev"
    and h: "index (Handlers w) (Event.Key ev) = Func h"
  shows "goroutine_run newcap i w =
     (assign_append newcap \<lparr>Key = Event.Key ev, Result = h (Data ev)\<rparr> w)
       \<lparr>goroutines := finished i (goroutines w)\<rparr>"
proof -
  let ?r = "\<lparr>Key = Event.Key ev, Result = h (Data ev)\<rparr>"
  obtain s w1 where g: "go_append newcap (ProcessedEvents w) ?r w = (s, w1)"
    by (cases "go_append newcap (ProcessedEvents w) ?r w")
  have gs: "goroutines w1 = goroutines w" using go_append_frame [OF g] by simp
  have l: "goroutine_load newcap i w = w1\<lparr>goroutines := (goroutines w)[i := Loaded ?r s]\<rparr>"
    using i ev h g by (rule goroutine_load_index_Func)
  show ?thesis
    unfolding goroutine_run_def l using i
    by (simp add: goroutine_store_def assign_append_def g finished_update)
qed

lemma goroutine_run_Func:
  "i < length (goroutines w) \<Longrightarrow> goroutines w ! i = Spawned ev \<Longrightarrow>
   Handlers w (Event.Key ev) = Some (Func h) \<Longrightarrow>
   goroutine_run newcap i w =
     (assign_append newcap \<lparr>Key = Event.Key ev, Result = h (Data ev)\<rparr> w)
       \<lparr>goroutines := finished i (goroutines w)\<rparr>"
  by (rule goroutine_run_index_Func) (simp_all add: index_def)

lemma assign_append_goroutines:
  "assign_append newcap r (w\<lparr>goroutines := gs\<rparr>) = (assign_append newcap r w)\<lparr>goroutines := gs\<rparr>"
  by (simp add: assign_append_def go_append_def Let_def cong: if_cong)

lemma goroutine_run_after_spawn:
  assumes "Handlers w (Event.Key ev) = Some (Func h)"
  shows "goroutine_run newcap (length (goroutines w)) (processAsynchronously ev w) =
     assign_append newcap \<lparr>Key = Event.Key ev, Result = h (Data ev)\<rparr> w"
proof -
  let ?w = "processAsynchronously ev w"
  let ?r = "\<lparr>Key = Event.Key ev, Result = h (Data ev)\<rparr>"
  have "goroutine_run newcap (length (goroutines w)) ?w =
      (assign_append newcap ?r ?w)\<lparr>goroutines := finished (length (goroutines w)) (goroutines ?w)\<rparr>"
    using assms by (intro goroutine_run_Func) (simp_all add: processAsynchronously_def)
  also have "\<dots> = (assign_append newcap ?r w)\<lparr>goroutines := goroutines w\<rparr>"
    by (simp add: processAsynchronously_def assign_append_goroutines finished_append_last)
  also have "\<dots> = assign_append newcap ?r w"
    using frame_assign_append(3) [of newcap ?r w] by simp
  finally show ?thesis .
qed



subsection \<open>The registry\<close>

lemma Handlers_go_append [simp]: "Handlers (snd (go_append newcap s x w)) = Handlers w"
  by (simp add: go_append_def)

lemma Events_go_append [simp]: "Events (snd (go_append newcap s x w)) = Events w"
  by (simp add: go_append_def)

lemma stdout_go_append [simp]: "stdout (snd (go_append newcap s x w)) = stdout w"
  by (simp add: go_append_def)

lemma ProcessedEvents_go_append [simp]:
  "ProcessedEvents (snd (go_append newcap s x w)) = ProcessedEvents w"
  by (simp add: go_append_def)

lemma Handlers_goroutine_load [simp]: "Handlers (goroutine_load newcap i w) = Handlers w"
  by (simp add: goroutine_load_def Let_def split_beta split: goroutine.split func.split)

lemma Handlers_goroutine_store [simp]: "Handlers (goroutine_store i w) = Handlers w"
  by (simp add: goroutine_store_def split: goroutine.split)

lemma Handlers_run [simp]: "Handlers (run w) = Handlers w"
  by (simp add: run_def)

lemma Handlers_dispatch [simp]: "Handlers (dispatch ev w) = Handlers w"
  by (simp add: dispatch_def)

lemma Handlers_exec:
  "K \<notin> set (on_keys acts) \<Longrightarrow> Handlers (exec acts w) K = Handlers w K"
proof (induction acts arbitrary: w)
  case Nil
  then show ?case by simp
next
  case (Cons a acts)
  then show ?case by (cases a) (auto simp: on_def)
qed

lemma on_on: "on K H2 (on K H1 e) = on K H2 e"
  by (simp add: on_def)

text \<open>
  Claim C6. Registering \<open>H2\<close> under a key after \<open>H1\<close> leaves the state that registering
  \<open>H2\<close> alone leaves: \<open>H1\<close> is gone and nothing is reported. From then on, through any
  steps of the program that do not register the key again, an event with that key is
  executed with \<open>H2\<close>: the synchronous path prints the result of \<open>H2\<close>, the goroutine of
  the asynchronous path appends the result of \<open>H2\<close> to the completed queue.
\<close>

theorem registry_overwrite:
  assumes "Event.Key ev = K" and "K \<notin> set (on_keys acts)"
  shows "on K H2 (on K H1 w) = on K H2 w \<and>
     Handlers (on K H2 (on K H1 w)) K = Some H2 \<and>
     (let w2 = exec acts (on K (Func h2) (on K H1 w)) in
        Handlers w2 K = Some (Func h2) \<and>
        processSynchronously ev w2 =
          w2\<lparr>stdout := stdout w2 @ [Output \<lparr>Key = K, Result = h2 (Data ev)\<rparr>]\<rparr> \<and>
        goroutine_run newcap (length (goroutines w2)) (processAsynchronously ev w2) =
          assign_append newcap \<lparr>Key = K, Result = h2 (Data ev)\<rparr> w2 \<and>
        completed (assign_append newcap \<lparr>Key = K, Result = h2 (Data ev)\<rparr> w2) =
          completed w2 @ [\<lparr>Key = K, Result = h2 (Data ev)\<rparr>] \<and>
        Events (assign_append newcap \<lparr>Key = K, Result = h2 (Data ev)\<rparr> w2) = Events w2 \<and>
        Handlers (assign_append newcap \<lparr>Key = K, Result = h2 (Data ev)\<rparr> w2) = Handlers w2 \<and>
        goroutines (assign_append newcap \<lparr>Key = K, Result = h2 (Data ev)\<rparr> w2) =
          goroutines w2 \<and>
        stdout (assign_append newcap \<lparr>Key = K, Result = h2 (Data ev)\<rparr> w2) = stdout w2)"
proof -
  let ?w2 = "exec acts (on K (Func h2) (on K H1 w))"
  have h: "Handlers ?w2 (Event.Key ev) = Some (Func h2)"
    using assms by (simp add: Handlers_exec) (simp add: on_def)
  from processSynchronously_Func [OF h] goroutine_run_after_spawn [OF h] h assms(1)
  show ?thesis by (simp add: on_on Let_def) (simp add: on_def)
qed

theorem registry_overwrite_witness:
  "Handlers (exec [Dispatch (hello_event 0 False)]
      (on ''hello-0'' (Func hello) (on ''hello-0'' NilFunc start))) ''hello-0'' = Some (Func hello) \<and>
   stdout (processSynchronously (hello_event 0 False)
     (exec [Dispatch (hello_event 0 False)]
        (on ''hello-0'' (Func hello) (on ''hello-0'' NilFunc start)))) = [Output (hello_result 0)]"
  using registry_overwrite [of "hello_event 0 False" "''hello-0''" "[Dispatch (hello_event 0 False)]"
      NilFunc NilFunc start hello]
  by (simp add: Let_def hello_event_def hello_result_def hello_def hello_key_0 dispatch_def
      on_def start_def NewEventLoop_def)

subsection \<open>Order of dispatch\<close>

lemma received_append: "received (xs @ ys) = received xs @ received ys"
  by (induction xs rule: received.induct) simp_all

lemma received_map_Output [simp]: "received (map Output rs) = []"
  by (induction rs) simp_all

lemma received_run_dispatch:
  "received (stdout (run_dispatch w)) = received (stdout w) @ map Event.Key (take 1 (Events w))"
  by (simp add: run_dispatch_def loop_defs Let_def received_append
      split: list.split func.split)

lemma received_run:
  "received (stdout (run w)) = received (stdout w) @ map Event.Key (take 1 (Events w))"
  by (simp add: run_def stdout_run_drain received_append received_run_dispatch)

lemma Events_run: "Events (run w) = drop 1 (Events w)"
  by (simp add: run_def drop_Suc)

lemma completed_run: "completed (run w) = drop 1 (completed w)"
  by (simp add: run_def drop_Suc)

lemma Events_fold_dispatch: "Events (fold dispatch es w) = Events w @ es"
  by (induction es arbitrary: w) (simp_all add: dispatch_def)

lemma stdout_fold_dispatch: "stdout (fold dispatch es w) = stdout w"
  by (induction es arbitrary: w) (simp_all add: dispatch_def)

lemma Handlers_fold_dispatch: "Handlers (fold dispatch es w) = Handlers w"
  by (induction es arbitrary: w) (simp_all add: dispatch_def)

lemma completed_dispatch [simp]: "completed (dispatch ev w) = completed w"
  by (simp add: completed_def dispatch_def)

lemma completed_fold_dispatch: "completed (fold dispatch es w) = completed w"
  by (induction es arbitrary: w) simp_all

lemma take_Suc_map_hd:
  "map f (take (Suc k) xs) = map f (take k xs) @ map f (take 1 (drop k xs))"
proof -
  have "take (Suc k) xs = take k xs @ take 1 (drop k xs)"
    by (metis Suc_eq_plus1 take_add)
  then show ?thesis by simp
qed

lemma run_funpow:
  "Events ((run ^^ k) w) = drop k (Events w) \<and>
   received (stdout ((run ^^ k) w)) = received (stdout w) @ map Event.Key (take k (Events w))"
proof (induction k)
  case 0
  then show ?case by simp
next
  case (Suc k)
  then show ?case
    by (simp only: funpow.simps comp_apply Events_run received_run take_Suc_map_hd)
       (simp add: drop_Suc tl_drop)
qed

lemma completed_funpow: "completed ((run ^^ k) w) = drop k (completed w)"
  by (induction k) (simp_all add: completed_run drop_Suc tl_drop)

lemma Handlers_funpow: "Handlers ((run ^^ k) w) = Handlers w"
  by (induction k) simp_all

text \<open>What one call of \<open>run\<close> does with the event at the head of the pending queue.\<close>

lemma run_absent:
  assumes "Events v = ev # rest" and "Handlers v (Event.Key ev) = None"
  shows "goroutines (run v) = goroutines v \<and>
     stdout (run v) = stdout v @ [Received (Event.Key ev), NoHandler (Event.Key ev)]
       @ map Output (take 1 (completed v))"
proof -
  let ?v1 = "v\<lparr>Events := rest,
       stdout := stdout v @ [Received (Event.Key ev), NoHandler (Event.Key ev)]\<rparr>"
  have d: "run_dispatch v = ?v1" using assms by (rule run_dispatch_absent)
  have c: "completed ?v1 = completed v" by (simp add: completed_def)
  show ?thesis unfolding run_def d by (simp add: stdout_run_drain c)
qed

lemma run_sync:
  assumes "Events v = ev # rest" and "Handlers v (Event.Key ev) = Some (Func h)"
    and "\<not> IsAsync ev"
  shows "goroutines (run v) = goroutines v \<and>
     stdout (run v) = stdout v @ [Received (Event.Key ev),
         Output \<lparr>Key = Event.Key ev, Result = h (Data ev)\<rparr>, Blocked]
       @ map Output (take 1 (completed v))"
proof -
  let ?v1 = "v\<lparr>Events := rest,
       stdout := stdout v @ [Received (Event.Key ev),
         Output \<lparr>Key = Event.Key ev, Result = h (Data ev)\<rparr>, Blocked]\<rparr>"
  have d: "run_dispatch v = ?v1" using assms by (rule run_dispatch_sync)
  have c: "completed ?v1 = completed v" by (simp add: completed_def)
  show ?thesis unfolding run_def d by (simp add: stdout_run_drain c)
qed

lemma run_sync_nil:
  assumes "Events v = ev # rest" and "Handlers v (Event.Key ev) = Some NilFunc"
    and "\<not> IsAsync ev"
  shows "goroutines (run v) = goroutines v \<and>
     stdout (run v) = stdout v @ [Received (Event.Key ev), Blocked]
       @ map Output (take 1 (completed v))"
proof -
  let ?v1 = "v\<lparr>Events := rest, stdout := stdout v @ [Received (Event.Key ev), Blocked]\<rparr>"
  have d: "run_dispatch v = ?v1" using assms by (rule run_dispatch_sync_nil)
  have c: "completed ?v1 = completed v" by (simp add: completed_def)
  show ?thesis unfolding run_def d by (simp add: stdout_run_drain c)
qed

lemma run_async:
  assumes "Events v = ev # rest" and "Handlers v (Event.Key ev) = Some fn" and "IsAsync ev"
  shows "goroutines (run v) = goroutines v @ [Spawned ev] \<and>
     stdout (run v) = stdout v @ [Received (Event.Key ev), Blocked]
       @ map Output (take 1 (completed v))"
proof -
  let ?v1 = "v\<lparr>Events := rest, goroutines := goroutines v @ [Spawned ev],
       stdout := stdout v @ [Received (Event.Key ev), Blocked]\<rparr>"
  have d: "run_dispatch v = ?v1" using assms by (rule run_dispatch_async)
  have c: "completed ?v1 = completed v" by (simp add: completed_def)
  show ?thesis unfolding run_def d by (simp add: stdout_run_drain c)
qed

text \<open>
  Claim C1. After the events \<open>es\<close> have been submitted in order, \<open>k\<close> successive calls of
  \<open>run\<close> have polled exactly the first \<open>k\<close> events of the queue, in order, one per call:
  the queue holds the rest, and the "Received Event" lines printed by the calls are the
  keys of those \<open>k\<close> events in submission order. On a loop whose queue was empty the queue
  is \<open>es\<close> itself. The next call, call \<open>k + 1\<close>, takes the event \<open>E\<close> at position \<open>k\<close> of
  the queue and hands it over, whatever the modes of the events before it:
  \<^item> when the key of \<open>E\<close> is absent, it prints "Received Event" and "No handler found" and
    starts no goroutine;
  \<^item> when \<open>E\<close> is synchronous and its key is bound to a handler function, it prints
    "Received Event", the output of the handler on the data of \<open>E\<close>, and the "blocked"
    line, and starts no goroutine (with a \<open>nil\<close> handler it prints no output);
  \<^item> when \<open>E\<close> is asynchronous and its key is present, it starts one goroutine for \<open>E\<close>
    and prints "Received Event" and the "blocked" line, no output for \<open>E\<close>.
  In each case the only line that follows is the drain of the result at the head of the
  completed queue, if any.
\<close>

theorem fifo_dispatch:
  "Events ((run ^^ k) (fold dispatch es w)) = drop k (Events w @ es) \<and>
   received (stdout ((run ^^ k) (fold dispatch es w))) =
     received (stdout w) @ map Event.Key (take k (Events w @ es)) \<and>
   completed ((run ^^ k) (fold dispatch es w)) = drop k (completed w) \<and>
   (k < length (Events w @ es) \<longrightarrow>
      (let ev = (Events w @ es) ! k; wk = (run ^^ k) (fold dispatch es w) in
         Events (run wk) = drop (Suc k) (Events w @ es) \<and>
         (Handlers w (Event.Key ev) = None \<longrightarrow>
            goroutines (run wk) = goroutines wk \<and>
            stdout (run wk) = stdout wk @ [Received (Event.Key ev), NoHandler (Event.Key ev)]
              @ map Output (take 1 (completed wk))) \<and>
         (\<forall>h. Handlers w (Event.Key ev) = Some (Func h) \<and> \<not> IsAsync ev \<longrightarrow>
            goroutines (run wk) = goroutines wk \<and>
            stdout (run wk) = stdout wk @ [Received (Event.Key ev),
                Output \<lparr>Key = Event.Key ev, Result = h (Data ev)\<rparr>, Blocked]
              @ map Output (take 1 (completed wk))) \<and>
         (Handlers w (Event.Key ev) = Some NilFunc \<and> \<not> IsAsync ev \<longrightarrow>
            goroutines (run wk) = goroutines wk \<and>
            stdout (run wk) = stdout wk @ [Received (Event.Key ev), Blocked]
              @ map Output (take 1 (completed wk))) \<and>
         (Handlers w (Event.Key ev) \<noteq> None \<and> IsAsync ev \<longrightarrow>
            goroutines (run wk) = goroutines wk @ [Spawned ev] \<and>
            stdout (run wk) = stdout wk @ [Received (Event.Key ev), Blocked]
              @ map Output (take 1 (completed wk)))))"
proof -
  let ?q = "Events w @ es"
  let ?wk = "(run ^^ k) (fold dispatch es w)"
  have E: "Events ?wk = drop k ?q"
    and R: "received (stdout ?wk) = received (stdout w) @ map Event.Key (take k ?q)"
    by (simp_all add: run_funpow Events_fold_dispatch stdout_fold_dispatch)
  have C: "completed ?wk = drop k (completed w)"
    by (simp add: completed_funpow completed_fold_dispatch)
  have H: "Handlers ?wk = Handlers w"
    by (simp add: Handlers_funpow Handlers_fold_dispatch)
  have "k < length ?q \<longrightarrow>
      (let ev = ?q ! k; wk = ?wk in
         Events (run wk) = drop (Suc k) ?q \<and>
         (Handlers w (Event.Key ev) = None \<longrightarrow>
            goroutines (run wk) = goroutines wk \<and>
            stdout (run wk) = stdout wk @ [Received (Event.Key ev), NoHandler (Event.Key ev)]
              @ map Output (take 1 (completed wk))) \<and>
         (\<forall>h. Handlers w (Event.Key ev) = Some (Func h) \<and> \<not> IsAsync ev \<longrightarrow>
            goroutines (run wk) = goroutines wk \<and>
            stdout (run wk) = stdout wk @ [Received (Event.Key ev),
                Output \<lparr>Key = Event.Key ev, Result = h (Data ev)\<rparr>, Blocked]
              @ map Output (take 1 (completed wk))) \<and>
         (Handlers w (Event.Key ev) = Some NilFunc \<and> \<not> IsAsync ev \<longrightarrow>
            goroutines (run wk) = goroutines wk \<and>
            stdout (run wk) = stdout wk @ [Received (Event.Key ev), Blocked]
              @ map Output (take 1 (completed wk))) \<and>
         (Handlers w (Event.Key ev) \<noteq> None \<and> IsAsync ev \<longrightarrow>
            goroutines (run wk) = goroutines wk @ [Spawned ev] \<and>
            stdout (run wk) = stdout wk @ [Received (Event.Key ev), Blocked]
              @ map Output (take 1 (completed wk))))"
  proof
    assume k: "k < length ?q"
    then have hd: "Events ?wk = ?q ! k # drop (Suc k) ?q"
      unfolding E by (rule Cons_nth_drop_Suc [symmetric])
    have next_queue: "Events (run ?wk) = drop (Suc k) ?q"
      by (simp add: Events_run hd)
    have absent: "Handlers w (Event.Key (?q ! k)) = None \<longrightarrow>
        goroutines (run ?wk) = goroutines ?wk \<and>
        stdout (run ?wk) = stdout ?wk @ [Received (Event.Key (?q ! k)), NoHandler (Event.Key (?q ! k))]
          @ map Output (take 1 (completed ?wk))"
      using run_absent [OF hd] by (simp only: H) blast
    have sync: "\<forall>h. Handlers w (Event.Key (?q ! k)) = Some (Func h) \<and> \<not> IsAsync (?q ! k) \<longrightarrow>
        goroutines (run ?wk) = goroutines ?wk \<and>
        stdout (run ?wk) = stdout ?wk @ [Received (Event.Key (?q ! k)),
            Output \<lparr>Key = Event.Key (?q ! k), Result = h (Data (?q ! k))\<rparr>, Blocked]
          @ map Output (take 1 (completed ?wk))"
      using run_sync [OF hd] by (simp only: H) blast
    have nil: "Handlers w (Event.Key (?q ! k)) = Some NilFunc \<and> \<not> IsAsync (?q ! k) \<longrightarrow>
        goroutines (run ?wk) = goroutines ?wk \<and>
        stdout (run ?wk) = stdout ?wk @ [Received (Event.Key (?q ! k)), Blocked]
          @ map Output (take 1 (completed ?wk))"
      using run_sync_nil [OF hd] by (simp only: H) blast
    have async: "Handlers w (Event.Key (?q ! k)) \<noteq> None \<and> IsAsync (?q ! k) \<longrightarrow>
        goroutines (run ?wk) = goroutines ?wk @ [Spawned (?q ! k)] \<and>
        stdout (run ?wk) = stdout ?wk @ [Received (Event.Key (?q ! k)), Blocked]
          @ map Output (take 1 (completed ?wk))"
      using run_async [OF hd] by (simp only: H) blast
    from next_queue absent sync nil async
    show "let ev = ?q ! k; wk = ?wk in
         Events (run wk) = drop (Suc k) ?q \<and>
         (Handlers w (Event.Key ev) = None \<longrightarrow>
            goroutines (run wk) = goroutines wk \<and>
            stdout (run wk) = stdout wk @ [Received (Event.Key ev), NoHandler (Event.Key ev)]
              @ map Output (take 1 (completed wk))) \<and>
         (\<forall>h. Handlers w (Event.Key ev) = Some (Func h) \<and> \<not> IsAsync ev \<longrightarrow>
            goroutines (run wk) = goroutines wk \<and>
            stdout (run wk) = stdout wk @ [Received (Event.Key ev),
                Output \<lparr>Key = Event.Key ev, Result = h (Data ev)\<rparr>, Blocked]
              @ map Output (take 1 (completed wk))) \<and>
         (Handlers w (Event.Key ev) = Some NilFunc \<and> \<not> IsAsync ev \<longrightarrow>
            goroutines (run wk) = goroutines wk \<and>
            stdout (run wk) = stdout wk @ [Received (Event.Key ev), Blocked]
              @ map Output (take 1 (completed wk))) \<and>
         (Handlers w (Event.Key ev) \<noteq> None \<and> IsAsync ev \<longrightarrow>
            goroutines (run wk) = goroutines wk @ [Spawned ev] \<and>
            stdout (run wk) = stdout wk @ [Received (Event.Key ev), Blocked]
              @ map Output (take 1 (completed wk)))"
      unfolding Let_def by blast
  qed
  with E R C show ?thesis by blast
qed

lemma hello_registered_eq:
  "hello_registered =
     start\<lparr>Handlers := [''hello-0'' \<mapsto> Func hello, ''hello-1'' \<mapsto> Func hello]\<rparr>"
  by (simp add: hello_registered_def on_def hello_keys start_def NewEventLoop_def)

theorem fifo_dispatch_witness:
  "goroutines (run (fold dispatch hello_queue hello_registered)) = [Spawned (hello_event 0 True)] \<and>
   stdout (run (run (fold dispatch hello_queue hello_registered))) =
     [Received ''hello-0'', Blocked, Received ''hello-1'', Output (hello_result 1), Blocked] \<and>
   stdout (run (run (run (fold dispatch hello_queue hello_registered)))) =
     [Received ''hello-0'', Blocked, Received ''hello-1'', Output (hello_result 1), Blocked,
      Received ''hello-2'', NoHandler ''hello-2'']"
proof -
  let ?w = "fold dispatch hello_queue hello_registered"
  let ?q = "Events hello_registered @ hello_queue"
  have q: "Events hello_registered = []"
    by (simp add: hello_registered_eq start_def NewEventLoop_def)
  have k0: "0 < length ?q" and k1: "1 < length ?q" and k2: "2 < length ?q"
    by (simp_all add: q hello_queue_def)
  have e0: "?q ! 0 = hello_event 0 True" and e1: "?q ! 1 = hello_event 1 False"
    and e2: "?q ! 2 = hello_event 2 True"
    by (simp_all add: q hello_queue_def numeral_2_eq_2)
  have h0: "Handlers hello_registered (Event.Key (hello_event 0 True)) \<noteq> None"
    and a0: "IsAsync (hello_event 0 True)"
    and h1: "Handlers hello_registered (Event.Key (hello_event 1 False)) = Some (Func hello)"
    and a1: "\<not> IsAsync (hello_event 1 False)"
    and h2: "Handlers hello_registered (Event.Key (hello_event 2 True)) = None"
    by (simp_all add: hello_registered_eq hello_event_def hello_keys)
  have c: "completed ?w = []"
    by (simp only: completed_fold_dispatch)
       (simp add: hello_registered_eq start_def NewEventLoop_def completed_def elements_def)
  have g: "goroutines ?w = []" and s: "stdout ?w = []"
    by (simp_all add: hello_queue_def dispatch_def hello_registered_eq start_def)
  have c1: "completed ((run ^^ 1) ?w) = []" and c2: "completed ((run ^^ 2) ?w) = []"
    by (simp_all only: completed_funpow c drop_Nil)
  from fifo_dispatch [of 0 hello_queue hello_registered] k0 h0 a0
  have first: "goroutines (run ?w) = goroutines ?w @ [Spawned (hello_event 0 True)] \<and>
      stdout (run ?w) = stdout ?w @ [Received (Event.Key (hello_event 0 True)), Blocked]
        @ map Output (take 1 (completed ?w))"
    unfolding Let_def e0 by simp
  from fifo_dispatch [of 1 hello_queue hello_registered] k1 h1 a1
  have second: "stdout (run ((run ^^ 1) ?w)) =
      stdout ((run ^^ 1) ?w) @ [Received (Event.Key (hello_event 1 False)),
        Output \<lparr>Key = Event.Key (hello_event 1 False),
          Result = hello (Data (hello_event 1 False))\<rparr>, Blocked]
        @ map Output (take 1 (completed ((run ^^ 1) ?w)))"
    unfolding Let_def e1 by blast
  from fifo_dispatch [of 2 hello_queue hello_registered] k2 h2
  have third: "stdout (run ((run ^^ 2) ?w)) =
      stdout ((run ^^ 2) ?w) @ [Received (Event.Key (hello_event 2 True)),
        NoHandler (Event.Key (hello_event 2 True))]
        @ map Output (take 1 (completed ((run ^^ 2) ?w)))"
    unfolding Let_def e2 by blast
  have r1: "(run ^^ 1) ?w = run ?w" and r2: "(run ^^ 2) ?w = run (run ?w)"
    by (simp_all add: numeral_2_eq_2)
  from first second third show ?thesis
    unfolding r1 r2 using c1 c2 c g s
    by (simp add: r1 r2 hello_event_def hello_result_def hello_def hello_keys)
qed

subsection \<open>Schedules\<close>

lemma exec_append: "exec (xs @ ys) w = exec ys (exec xs w)"
  by (induction xs arbitrary: w) simp_all

lemma hist_append: "hist f (xs @ ys) w = hist f xs w @ hist f ys (exec xs w)"
  by (induction xs arbitrary: w) simp_all

lemma serialized_Nil [simp]: "serialized [] = []"
  by (simp add: serialized_def)

lemma serialized_Cons [simp]: "serialized (a # sched) = expand a @ serialized sched"
  by (simp add: serialized_def)

text \<open>An observation that every step extends is extended by the whole schedule.\<close>

lemma hist_extends:
  assumes "\<And>a w. obs (step a w) = obs w @ f a w"
  shows "obs (exec acts w) = obs w @ hist f acts w"
proof (induction acts arbitrary: w)
  case Nil
  then show ?case by simp
next
  case (Cons a acts)
  have "obs (exec (a # acts) w) = obs (step a w) @ hist f acts (step a w)"
    by (simp add: Cons.IH)
  then show ?case by (simp add: assms)
qed

lemma hist_balance:
  assumes "\<And>a w. m (step a w) + mset (f a w) = m w + mset (g a w)"
  shows "m (exec acts w) + mset (hist f acts w) = m w + mset (hist g acts w)"
proof (induction acts arbitrary: w)
  case Nil
  then show ?case by simp
next
  case (Cons a acts)
  have "m (exec (a # acts) w) + mset (hist f (a # acts) w) =
      (m (exec acts (step a w)) + mset (hist f acts (step a w))) + mset (f a w)"
    by simp
  also have "\<dots> = (m (step a w) + mset (hist g acts (step a w))) + mset (f a w)"
    by (simp only: Cons.IH)
  also have "\<dots> = (m (step a w) + mset (f a w)) + mset (hist g acts (step a w))"
    by simp
  also have "\<dots> = (m w + mset (g a w)) + mset (hist g acts (step a w))"
    by (simp only: assms)
  finally show ?case by simp
qed

text \<open>What the steps of a goroutine leave alone.\<close>

lemma Events_goroutine_load [simp]: "Events (goroutine_load newcap i w) = Events w"
  by (simp add: goroutine_load_def Let_def split_beta split: goroutine.split func.split)

lemma Events_goroutine_store [simp]: "Events (goroutine_store i w) = Events w"
  by (simp add: goroutine_store_def split: goroutine.split)

lemma stdout_goroutine_load [simp]: "stdout (goroutine_load newcap i w) = stdout w"
  by (simp add: goroutine_load_def Let_def split_beta split: goroutine.split func.split)

lemma stdout_goroutine_store [simp]: "stdout (goroutine_store i w) = stdout w"
  by (simp add: goroutine_store_def split: goroutine.split)

lemma goroutines_go_append [simp]: "goroutines (snd (go_append newcap s x w)) = goroutines w"
  by (simp add: go_append_def)

text \<open>The pending queue, along every schedule.\<close>

lemma pending_queue_step:
  "polled a w @ Events (step a w) = Events w @ submitted a w"
  by (cases a) (simp_all add: on_def dispatch_def Events_run)

lemma pending_queue_hist:
  "hist polled acts w @ Events (exec acts w) = Events w @ hist submitted acts w"
proof (induction acts arbitrary: w)
  case Nil
  then show ?case by simp
next
  case (Cons a acts)
  have "hist polled (a # acts) w @ Events (exec (a # acts) w) =
      polled a w @ (hist polled acts (step a w) @ Events (exec acts (step a w)))"
    by simp
  also have "\<dots> = polled a w @ Events (step a w) @ hist submitted acts (step a w)"
    by (simp only: Cons.IH)
  also have "\<dots> = Events w @ submitted a w @ hist submitted acts (step a w)"
    using pending_queue_step [of a w] by simp
  finally show ?case by simp
qed

text \<open>Standard output, along every schedule.\<close>

lemma outputs_append: "outputs (xs @ ys) = outputs xs @ outputs ys"
  by (induction xs rule: outputs.induct) simp_all

lemma outputs_map_Output [simp]: "outputs (map Output rs) = rs"
  by (induction rs) simp_all

lemma no_handler_append: "no_handler (xs @ ys) = no_handler xs @ no_handler ys"
  by (induction xs rule: no_handler.induct) simp_all

lemma no_handler_map_Output [simp]: "no_handler (map Output rs) = []"
  by (induction rs) simp_all

lemma outputs_run_dispatch:
  "outputs (stdout (run_dispatch w)) = outputs (stdout w) @ executed_sync Run w"
  by (simp add: run_dispatch_def loop_defs Let_def outputs_append executed_sync_def
      polled_sync_def result_of_def index_def split: list.split func.split option.split)

lemma outputs_step: "outputs (stdout (step a w)) = outputs (stdout w) @ emitted a w"
proof (cases a)
  case Run
  then show ?thesis
    by (simp add: run_def stdout_run_drain outputs_append outputs_run_dispatch emitted_def)
qed (simp_all add: emitted_def executed_sync_def polled_sync_def on_def dispatch_def)

lemma no_handler_run_dispatch:
  "no_handler (stdout (run_dispatch w)) =
     no_handler (stdout w) @ map Event.Key (polled_absent Run w)"
  by (simp add: run_dispatch_def loop_defs Let_def no_handler_append polled_absent_def
      split: list.split func.split)

lemma no_handler_step:
  "no_handler (stdout (step a w)) = no_handler (stdout w) @ map Event.Key (polled_absent a w)"
proof (cases a)
  case Run
  then show ?thesis
    by (simp add: run_def stdout_run_drain no_handler_append no_handler_run_dispatch)
qed (simp_all add: polled_absent_def on_def dispatch_def)

lemma no_handler_hist:
  "no_handler (stdout (exec acts w)) =
     no_handler (stdout w) @ map Event.Key (hist polled_absent acts w)"
proof (induction acts arbitrary: w)
  case Nil
  then show ?case by simp
next
  case (Cons a acts)
  then show ?case by (simp add: no_handler_step)
qed

text \<open>The goroutines in flight, along every schedule.\<close>

lemma waiting_append: "waiting (xs @ ys) = waiting xs @ waiting ys"
  by (induction xs rule: waiting.induct) simp_all

lemma unassigned_append: "unassigned (xs @ ys) = unassigned xs @ unassigned ys"
  by (induction xs rule: unassigned.induct) simp_all

lemma waiting_Cons: "waiting (g # gs) = waiting [g] @ waiting gs"
  by (cases g) simp_all

lemma unassigned_Cons: "unassigned (g # gs) = unassigned [g] @ unassigned gs"
  by (cases g) simp_all

lemma waiting_map_Spawned [simp]: "waiting (map Spawned es) = es"
  by (induction es) simp_all

lemma unassigned_map_Spawned [simp]: "unassigned (map Spawned es) = []"
  by (induction es) simp_all

lemma goroutines_run_dispatch:
  "goroutines (run_dispatch w) = goroutines w @ map Spawned (polled_async Run w)"
  by (simp add: run_dispatch_def loop_defs Let_def polled_async_def
      split: list.split func.split)

lemma goroutines_run: "goroutines (run w) = goroutines w @ map Spawned (polled_async Run w)"
  by (simp add: run_def goroutines_run_dispatch)

lemma waiting_finished:
  "i < length gs \<Longrightarrow>
   mset (waiting (finished i gs)) + mset (waiting [gs ! i]) = mset (waiting gs)"
proof -
  assume "i < length gs"
  then have "gs = take i gs @ gs ! i # drop (Suc i) gs" by (rule id_take_nth_drop)
  then have "waiting gs = waiting (take i gs) @ waiting [gs ! i] @ waiting (drop (Suc i) gs)"
    by (metis waiting_append waiting_Cons)
  then show ?thesis by (simp add: finished_def waiting_append)
qed

lemma unassigned_finished:
  "i < length gs \<Longrightarrow>
   mset (unassigned (finished i gs)) + mset (unassigned [gs ! i]) = mset (unassigned gs)"
proof -
  assume "i < length gs"
  then have "gs = take i gs @ gs ! i # drop (Suc i) gs" by (rule id_take_nth_drop)
  then have "unassigned gs =
      unassigned (take i gs) @ unassigned [gs ! i] @ unassigned (drop (Suc i) gs)"
    by (metis unassigned_append unassigned_Cons)
  then show ?thesis by (simp add: finished_def unassigned_append)
qed

lemma waiting_update:
  "i < length gs \<Longrightarrow>
   mset (waiting (gs[i := g])) + mset (waiting [gs ! i]) = mset (waiting gs) + mset (waiting [g])"
proof -
  assume i: "i < length gs"
  then have "gs[i := g] = take i gs @ g # drop (Suc i) gs"
    by (simp add: upd_conv_take_nth_drop)
  then have "waiting (gs[i := g]) = waiting (take i gs) @ waiting [g] @ waiting (drop (Suc i) gs)"
    by (metis waiting_append waiting_Cons)
  then have "mset (waiting (gs[i := g])) = mset (waiting (finished i gs)) + mset (waiting [g])"
    by (simp add: finished_def waiting_append)
  with waiting_finished [OF i] show ?thesis by simp
qed

lemma unassigned_update:
  "i < length gs \<Longrightarrow>
   mset (unassigned (gs[i := g])) + mset (unassigned [gs ! i]) =
     mset (unassigned gs) + mset (unassigned [g])"
proof -
  assume i: "i < length gs"
  then have "gs[i := g] = take i gs @ g # drop (Suc i) gs"
    by (simp add: upd_conv_take_nth_drop)
  then have "unassigned (gs[i := g]) =
      unassigned (take i gs) @ unassigned [g] @ unassigned (drop (Suc i) gs)"
    by (metis unassigned_append unassigned_Cons)
  then have "mset (unassigned (gs[i := g])) =
      mset (unassigned (finished i gs)) + mset (unassigned [g])"
    by (simp add: finished_def unassigned_append)
  with unassigned_finished [OF i] show ?thesis by simp
qed

lemma goroutines_goroutine_load:
  "goroutines (goroutine_load newcap i w) =
     (if i < length (goroutines w) then
        (case goroutines w ! i of
           Spawned ev \<Rightarrow>
             (case index (Handlers w) (Event.Key ev) of
                NilFunc \<Rightarrow> finished i (goroutines w)
              | Func h \<Rightarrow>
                  (goroutines w)[i := Loaded \<lparr>Key = Event.Key ev, Result = h (Data ev)\<rparr>
                    (fst (go_append newcap (ProcessedEvents w)
                       \<lparr>Key = Event.Key ev, Result = h (Data ev)\<rparr> w))])
         | Loaded r s \<Rightarrow> goroutines w)
      else goroutines w)"
  by (simp add: goroutine_load_def Let_def split_beta split: goroutine.split func.split)

lemma goroutines_goroutine_store:
  "goroutines (goroutine_store i w) =
     (if i < length (goroutines w) then
        (case goroutines w ! i of
           Spawned ev \<Rightarrow> goroutines w
         | Loaded r s \<Rightarrow> finished i (goroutines w))
      else goroutines w)"
  by (simp add: goroutine_store_def split: goroutine.split)

lemma waiting_step:
  "mset (waiting (goroutines (step a w))) + mset (begun a w) =
     mset (waiting (goroutines w)) + mset (polled_async a w)"
proof (cases a)
  case (On key fn)
  then show ?thesis by (simp add: on_def polled_async_def)
next
  case (Dispatch ev)
  then show ?thesis by (simp add: dispatch_def polled_async_def)
next
  case Run
  then show ?thesis by (simp add: goroutines_run waiting_append)
next
  case (Load newcap i)
  show ?thesis
  proof (cases "i < length (goroutines w)")
    case True
    from waiting_finished [OF True]
      waiting_update [OF True]
    show ?thesis
      unfolding Load
      by (cases "goroutines w ! i")
         (auto simp: goroutines_goroutine_load polled_async_def True split: func.split)
  next
    case False
    then show ?thesis by (simp add: Load goroutines_goroutine_load polled_async_def)
  qed
next
  case (Store i)
  show ?thesis
  proof (cases "i < length (goroutines w)")
    case True
    from waiting_finished [OF True] show ?thesis
      unfolding Store
      by (cases "goroutines w ! i")
         (auto simp: goroutines_goroutine_store polled_async_def True)
  next
    case False
    then show ?thesis by (simp add: Store goroutines_goroutine_store polled_async_def)
  qed
qed

lemma unassigned_step:
  "mset (unassigned (goroutines (step a w))) + mset (appended a w) =
     mset (unassigned (goroutines w)) + mset (computed a w)"
proof (cases a)
  case (On key fn)
  then show ?thesis by (simp add: on_def computed_def)
next
  case (Dispatch ev)
  then show ?thesis by (simp add: dispatch_def computed_def)
next
  case Run
  then show ?thesis by (simp add: goroutines_run unassigned_append computed_def)
next
  case (Load newcap i)
  show ?thesis
  proof (cases "i < length (goroutines w)")
    case True
    from unassigned_finished [OF True]
      unassigned_update [OF True]
    show ?thesis
      unfolding Load
      by (cases "goroutines w ! i")
         (auto simp: goroutines_goroutine_load computed_def result_of_def True
            split: func.split)
  next
    case False
    then show ?thesis by (simp add: Load goroutines_goroutine_load computed_def)
  qed
next
  case (Store i)
  show ?thesis
  proof (cases "i < length (goroutines w)")
    case True
    from unassigned_finished [OF True] show ?thesis
      unfolding Store
      by (cases "goroutines w ! i")
         (auto simp: goroutines_goroutine_store computed_def True)
  next
    case False
    then show ?thesis by (simp add: Store goroutines_goroutine_store computed_def)
  qed
qed

lemma waiting_hist:
  "mset (waiting (goroutines (exec acts w))) + mset (hist begun acts w) =
     mset (waiting (goroutines w)) + mset (hist polled_async acts w)"
  by (rule hist_balance [where m = "\<lambda>w. mset (waiting (goroutines w))"]) (rule waiting_step)

lemma unassigned_hist:
  "mset (unassigned (goroutines (exec acts w))) + mset (hist appended acts w) =
     mset (unassigned (goroutines w)) + mset (hist computed acts w)"
  by (rule hist_balance [where m = "\<lambda>w. mset (unassigned (goroutines w))"])
     (rule unassigned_step)

lemma outputs_hist:
  "outputs (stdout (exec acts w)) = outputs (stdout w) @ hist emitted acts w"
  by (rule hist_extends [where obs = "\<lambda>w. outputs (stdout w)"]) (rule outputs_step)

text \<open>States in which no goroutine is inside its append.\<close>

lemma quiescent_iff: "quiescent w = (\<forall>g \<in> set (goroutines w). \<not> in_append g)"
  by (simp add: quiescent_def filter_empty_conv)

lemma quiescent_nth:
  "quiescent w \<Longrightarrow> i < length (goroutines w) \<Longrightarrow> \<exists>ev. goroutines w ! i = Spawned ev"
proof -
  assume "quiescent w" and "i < length (goroutines w)"
  then have "\<not> in_append (goroutines w ! i)"
    by (simp add: quiescent_iff)
  then show ?thesis by (cases "goroutines w ! i") simp_all
qed

lemma set_finished: "set (finished i gs) \<subseteq> set gs"
proof -
  have "set (take i gs) \<subseteq> set gs" by (rule set_take_subset)
  moreover have "set (drop (Suc i) gs) \<subseteq> set gs" by (rule set_drop_subset)
  ultimately show ?thesis by (simp add: finished_def)
qed

lemma quiescent_run: "quiescent w \<Longrightarrow> quiescent (run w)"
  by (auto simp: quiescent_iff goroutines_run)

lemma quiescent_dispatch: "quiescent w \<Longrightarrow> quiescent (dispatch ev w)"
  by (simp add: quiescent_def dispatch_def)

lemma quiescent_on: "quiescent w \<Longrightarrow> quiescent (on key fn w)"
  by (simp add: quiescent_def on_def)

lemma quiescent_finished:
  "quiescent w \<Longrightarrow> quiescent (w\<lparr>goroutines := finished i (goroutines w)\<rparr>)"
  using set_finished [of i "goroutines w"] by (auto simp: quiescent_iff)

lemma quiescent_mutex: "quiescent w \<Longrightarrow> mutex w"
  by (simp add: quiescent_def mutex_def)

text \<open>A goroutine that runs its whole body in one step.\<close>

lemma goroutine_store_quiescent: "quiescent w \<Longrightarrow> goroutine_store i w = w"
proof (cases "i < length (goroutines w)")
  case True
  assume "quiescent w"
  with True obtain ev where "goroutines w ! i = Spawned ev"
    using quiescent_nth by blast
  with True show ?thesis by (simp add: goroutine_store_def)
next
  case False
  then show ?thesis by (simp add: goroutine_store_def)
qed

lemma appended_quiescent: "quiescent w \<Longrightarrow> appended (Store i) w = []"
proof (cases "i < length (goroutines w)")
  case True
  assume "quiescent w"
  with True obtain ev where "goroutines w ! i = Spawned ev"
    using quiescent_nth by blast
  with True show ?thesis by simp
next
  case False
  then show ?thesis by simp
qed

lemma completed_goroutines_update [simp]: "completed (w\<lparr>goroutines := gs\<rparr>) = completed w"
  by (simp add: completed_def)

lemma complete_in:
  assumes q: "quiescent w" and i: "i < length (goroutines w)"
  shows "completed (goroutine_run newcap i w) =
      completed w @ pending (Handlers w) (goroutines w ! i) \<and>
    goroutines (goroutine_run newcap i w) = finished i (goroutines w) \<and>
    appended (Store i) (goroutine_load newcap i w) = pending (Handlers w) (goroutines w ! i)"
proof -
  from q i obtain ev where ev: "goroutines w ! i = Spawned ev"
    using quiescent_nth by blast
  show ?thesis
  proof (cases "index (Handlers w) (Event.Key ev)")
    case NilFunc
    have l: "goroutine_load newcap i w = w\<lparr>goroutines := finished i (goroutines w)\<rparr>"
      using i ev NilFunc by (rule goroutine_load_Nil)
    have "quiescent (goroutine_load newcap i w)"
      unfolding l using q by (rule quiescent_finished)
    then have "goroutine_store i (goroutine_load newcap i w) = goroutine_load newcap i w"
      and "appended (Store i) (goroutine_load newcap i w) = []"
      by (simp_all only: goroutine_store_quiescent appended_quiescent)
    with l ev NilFunc show ?thesis
      by (simp add: goroutine_run_def result_of_def)
  next
    case (Func h)
    let ?r = "\<lparr>Key = Event.Key ev, Result = h (Data ev)\<rparr>"
    have r: "goroutine_run newcap i w =
        (assign_append newcap ?r w)\<lparr>goroutines := finished i (goroutines w)\<rparr>"
      using i ev Func by (rule goroutine_run_index_Func)
    have "goroutines (goroutine_load newcap i w) ! i =
        Loaded ?r (fst (go_append newcap (ProcessedEvents w) ?r w))"
      using i ev Func by (simp add: goroutines_goroutine_load)
    moreover have "i < length (goroutines (goroutine_load newcap i w))"
      using i ev Func by (simp add: goroutines_goroutine_load)
    ultimately have "appended (Store i) (goroutine_load newcap i w) = [?r]"
      by simp
    with r ev Func show ?thesis by (simp add: result_of_def)
  qed
qed

lemma complete_out:
  "\<not> i < length (goroutines w) \<Longrightarrow>
   goroutine_run newcap i w = w \<and> appended (Store i) (goroutine_load newcap i w) = []"
  by (simp add: goroutine_run_def goroutine_load_def goroutine_store_def)

lemma quiescent_complete: "quiescent w \<Longrightarrow> quiescent (goroutine_run newcap i w)"
proof (cases "i < length (goroutines w)")
  case True
  assume q: "quiescent w"
  from quiescent_finished [OF q, of i] complete_in [OF q True, of newcap] show ?thesis
    by (simp add: quiescent_def)
next
  case False
  assume "quiescent w"
  with complete_out [OF False] show ?thesis by simp
qed

text \<open>The steps of a serial schedule.\<close>

lemma take1_tl: "take (Suc 0) xs @ tl xs = xs"
  by (cases xs) simp_all

lemma quiescent_expand: "quiescent w \<Longrightarrow> quiescent (exec (expand a) w)"
  by (cases a)
     (simp_all add: quiescent_on quiescent_dispatch quiescent_run quiescent_complete
        goroutine_run_def [symmetric])

lemma quiescent_serialized:
  "quiescent w \<Longrightarrow> quiescent (exec (serialized sched) w)"
proof (induction sched arbitrary: w)
  case Nil
  then show ?case by simp
next
  case (Cons a sched)
  from Cons.prems have "quiescent (exec (expand a) w)" by (rule quiescent_expand)
  then have "quiescent (exec (serialized sched) (exec (expand a) w))" by (rule Cons.IH)
  then show ?case by (simp add: exec_append)
qed

text \<open>The completed queue, along serial schedules.\<close>

lemma completed_on [simp]: "completed (on key fn w) = completed w"
  by (simp add: completed_def on_def)

lemma completed_queue_expand:
  assumes "quiescent w"
  shows "hist drained (expand a) w @ completed (exec (expand a) w) =
     completed w @ hist appended (expand a) w"
proof (cases a)
  case (Register key fn)
  then show ?thesis by simp
next
  case (Submit ev)
  then show ?thesis by simp
next
  case Tick
  then show ?thesis by (simp add: run_def take1_tl)
next
  case (Complete newcap i)
  show ?thesis
  proof (cases "i < length (goroutines w)")
    case True
    from complete_in [OF assms True, of newcap] Complete show ?thesis
      by (simp add: goroutine_run_def)
  next
    case False
    from complete_out [OF False, of newcap] Complete show ?thesis
      by (simp add: goroutine_run_def)
  qed
qed

lemma completed_queue_serialized:
  "quiescent w \<Longrightarrow>
   hist drained (serialized sched) w @ completed (exec (serialized sched) w) =
     completed w @ hist appended (serialized sched) w"
proof (induction sched arbitrary: w)
  case Nil
  then show ?case by simp
next
  case (Cons a sched)
  let ?w = "exec (expand a) w"
  have q: "quiescent ?w" using Cons.prems by (rule quiescent_expand)
  have "hist drained (serialized (a # sched)) w @ completed (exec (serialized (a # sched)) w) =
      hist drained (expand a) w @
        (hist drained (serialized sched) ?w @ completed (exec (serialized sched) ?w))"
    by (simp add: hist_append exec_append)
  also have "\<dots> = hist drained (expand a) w @ completed ?w @ hist appended (serialized sched) ?w"
    by (simp only: Cons.IH [OF q])
  also have "\<dots> = completed w @ hist appended (expand a) w @ hist appended (serialized sched) ?w"
    using completed_queue_expand [OF Cons.prems, of a] by simp
  finally show ?case by (simp add: hist_append)
qed

text \<open>Mutual exclusion at every step of a serial schedule.\<close>

lemma mutex_goroutine_load: "quiescent w \<Longrightarrow> mutex (goroutine_load newcap i w)"
proof (cases "i < length (goroutines w)")
  case True
  assume q: "quiescent w"
  then obtain ev where ev: "goroutines w ! i = Spawned ev"
    using True quiescent_nth by blast
  have f: "filter in_append (finished i (goroutines w)) = []"
    using quiescent_finished [OF q, of i] by (simp add: quiescent_def)
  show ?thesis
  proof (cases "index (Handlers w) (Event.Key ev)")
    case NilFunc
    with True ev f show ?thesis by (simp add: mutex_def goroutines_goroutine_load)
  next
    case (Func h)
    have "filter in_append (take i (goroutines w)) = []"
      and "filter in_append (drop (Suc i) (goroutines w)) = []"
      using f by (simp_all add: finished_def)
    with True ev Func show ?thesis
      by (simp add: mutex_def goroutines_goroutine_load upd_conv_take_nth_drop)
  qed
next
  case False
  assume "quiescent w"
  with False show ?thesis
    by (simp add: goroutine_load_def quiescent_mutex)
qed

lemma mutex_expand_prefix: "quiescent w \<Longrightarrow> mutex (exec (take n (expand a)) w)"
proof -
  assume q: "quiescent w"
  show ?thesis
  proof (cases a)
    case (Complete newcap i)
    consider "n = 0" | "n = 1" | "2 \<le> n" by linarith
    then show ?thesis
    proof cases
      case 1
      with q show ?thesis by (simp add: quiescent_mutex)
    next
      case 2
      with q Complete show ?thesis by (simp add: mutex_goroutine_load)
    next
      case 3
      then have "take n (expand a) = expand a" by (simp add: Complete)
      with quiescent_expand [OF q, of a] show ?thesis by (simp add: quiescent_mutex)
    qed
  next
    case (Register key fn)
    show ?thesis
    proof (cases n)
      case 0
      with q show ?thesis by (simp add: quiescent_mutex)
    next
      case (Suc m)
      with q Register show ?thesis by (simp add: quiescent_mutex quiescent_on)
    qed
  next
    case (Submit ev)
    show ?thesis
    proof (cases n)
      case 0
      with q show ?thesis by (simp add: quiescent_mutex)
    next
      case (Suc m)
      with q Submit show ?thesis by (simp add: quiescent_mutex quiescent_dispatch)
    qed
  next
    case Tick
    show ?thesis
    proof (cases n)
      case 0
      with q show ?thesis by (simp add: quiescent_mutex)
    next
      case (Suc m)
      with q Tick show ?thesis by (simp add: quiescent_mutex quiescent_run)
    qed
  qed
qed

lemma mutex_serialized_prefix:
  "quiescent w \<Longrightarrow> mutex (exec (take n (serialized sched)) w)"
proof (induction sched arbitrary: w n)
  case Nil
  then show ?case by (simp add: quiescent_mutex)
next
  case (Cons a sched)
  show ?case
  proof (cases "n \<le> length (expand a)")
    case True
    then have "take n (serialized (a # sched)) = take n (expand a)" by simp
    then show ?thesis
      using mutex_expand_prefix [OF Cons.prems, of n a] by (simp only:)
  next
    case False
    then have t: "take n (serialized (a # sched)) =
        expand a @ take (n - length (expand a)) (serialized sched)"
      by simp
    have "quiescent (exec (expand a) w)" using Cons.prems by (rule quiescent_expand)
    then have "mutex (exec (take (n - length (expand a)) (serialized sched)) (exec (expand a) w))"
      by (rule Cons.IH)
    then show ?thesis by (simp only: t exec_append)
  qed
qed

subsection \<open>Appends that overlap\<close>

lemmas session_defs = two_hellos_def wish_hello_def hello_event_def hello_result_def hello_def
  hello_keys start_def NewEventLoop_def

lemmas step_defs = run_def run_dispatch_def run_drain_def loop_defs goroutine_load_def
  goroutine_store_def go_append_def reslice_def completed_def elements_def finished_def
  index_def on_def dispatch_def Let_def

lemma after_two_hellos:
  "exec two_hellos start =
     start\<lparr>Handlers := [''hello-0'' \<mapsto> Func hello, ''hello-1'' \<mapsto> Func hello],
       goroutines := [Spawned (hello_event 0 True), Spawned (hello_event 1 True)],
       stdout := [Received ''hello-0'', Blocked, Received ''hello-1'', Blocked]\<rparr>"
  by (simp add: session_defs step_defs)

lemma hist_two_hellos:
  "hist appended two_hellos start = [] \<and> hist drained two_hellos start = []"
  by (simp add: session_defs step_defs)

text \<open>
  Claim C5 as stated, for every reachable state, fails when an append overlaps a drain.
  In the session \<open>stale_append\<close> the second goroutine reads the queue while it holds the
  first result and calls \<open>append\<close>, which copies the first result into a new array; the
  driver drains the first result; the goroutine then assigns the slice on the new array:
  the first result was appended once and is drained and printed twice.
\<close>

theorem stale_append_drained_twice:
  "hist appended stale_append start = [hello_result 0, hello_result 1] \<and>
   hist drained stale_append start = [hello_result 0, hello_result 0, hello_result 1] \<and>
   outputs (stdout (exec stale_append start)) = [hello_result 0, hello_result 0, hello_result 1] \<and>
   hist drained stale_append start @ completed (exec stale_append start) \<noteq>
     completed start @ hist appended stale_append start"
  unfolding stale_append_def
  by (simp add: hist_append exec_append after_two_hellos hist_two_hellos)
     (simp add: hello_event_def hello_result_def hello_def hello_keys
        start_def NewEventLoop_def step_defs)

text \<open>
  Claim C7 as stated fails: nothing keeps two goroutines from being inside their append at
  the same time. In the session \<open>lost_update\<close> both goroutines have read the empty queue
  and called \<open>append\<close> before either assigns; the second assignment replaces the first,
  and the first result is gone from the queue without ever having been drained.
\<close>

theorem lost_update_no_mutex:
  "\<not> mutex (exec both_loaded start) \<and>
   hist appended lost_update start = [hello_result 0, hello_result 1] \<and>
   hist drained lost_update start = [] \<and>
   goroutines (exec lost_update start) = [] \<and>
   completed (exec lost_update start) = [hello_result 1]"
  unfolding lost_update_def both_loaded_def
  by (simp add: hist_append exec_append after_two_hellos hist_two_hellos)
     (simp add: mutex_def hello_event_def hello_result_def hello_def hello_keys
        start_def NewEventLoop_def step_defs)

text \<open>
  With spare capacity \<open>append\<close> writes the shared array. In the session \<open>overwritten\<close>
  the queue holds three results in an array of four cells when the last two goroutines
  both read it and call \<open>append\<close>: both write the fourth cell. The fourth goroutine then
  assigns its slice, and the queue ends with the result of the fifth goroutine, not with
  the result that the fourth appended.
\<close>

lemma after_five_hellos:
  "exec five_hellos start =
     start\<lparr>Handlers := [''hello-0'' \<mapsto> Func hello, ''hello-1'' \<mapsto> Func hello,
         ''hello-2'' \<mapsto> Func hello, ''hello-3'' \<mapsto> Func hello, ''hello-4'' \<mapsto> Func hello],
       goroutines := [Spawned (hello_event 0 True), Spawned (hello_event 1 True),
         Spawned (hello_event 2 True), Spawned (hello_event 3 True),
         Spawned (hello_event 4 True)],
       stdout := [Received ''hello-0'', Blocked, Received ''hello-1'', Blocked,
         Received ''hello-2'', Blocked, Received ''hello-3'', Blocked,
         Received ''hello-4'', Blocked]\<rparr>"
  by (simp add: five_hellos_def session_defs step_defs)

lemma spare_cell_state:
  "completed (exec spare_cell start) = [hello_result 0, hello_result 1, hello_result 2] \<and>
   cap (ProcessedEvents (exec spare_cell start)) = 4 \<and>
   goroutines (exec spare_cell start) =
     [Spawned (hello_event 3 True), Spawned (hello_event 4 True)]"
  unfolding spare_cell_def
  by (simp add: exec_append after_five_hellos)
     (simp add: hello_event_def hello_result_def hello_def hello_keys
        start_def NewEventLoop_def step_defs)

lemma overwritten_in_place:
  "hist appended overwritten start =
     [hello_result 0, hello_result 1, hello_result 2, hello_result 3] \<and>
   completed (exec overwritten start) =
     [hello_result 0, hello_result 1, hello_result 2, hello_result 4]"
  unfolding overwritten_def spare_cell_def
  by (simp add: hist_append exec_append after_five_hellos)
     (simp add: five_hellos_def session_defs step_defs)

subsection \<open>Every event once, every result once\<close>

lemma polled_classes_step:
  "mset (polled a w) =
     mset (polled_absent a w) + mset (polled_sync a w) + mset (polled_async a w)"
  by (cases a; cases "Events w")
     (auto simp: polled_absent_def polled_sync_def polled_async_def)

lemma polled_classes:
  "mset (hist polled acts w) =
     mset (hist polled_absent acts w) + mset (hist polled_sync acts w)
       + mset (hist polled_async acts w)"
proof (induction acts arbitrary: w)
  case Nil
  then show ?case by simp
next
  case (Cons a acts)
  then show ?case by (simp add: polled_classes_step)
qed

lemma quiescent_start: "quiescent start"
  by (simp add: quiescent_def start_def)

text \<open>
  Claim C5, as the code has it. Along every schedule, whatever the goroutines do in
  between and whatever is registered meanwhile:
  \<^item> the events polled so far, followed by the pending queue, are the pending queue at the
    start followed by the events submitted: every event leaves the queue once, in
    submission order, and none comes back into it;
  \<^item> every polled event is in exactly one of three classes, by the registry at the time
    of the call: key absent, synchronous with its key present, asynchronous with its key
    present;
  \<^item> for the events whose key was absent there is one "No handler found" line each, in
    order, and no other such line;
  \<^item> the results printed are, call by call, the result of the synchronous event that the
    call polled (none when its handler is \<open>nil\<close>), printed by that same call, and then
    the result that the call drained: nothing else is ever printed as a result;
  \<^item> every asynchronous event polled with its key present got one goroutine, which
    either has not begun or has begun its body once;
  \<^item> every goroutine that has begun computed the result of its event under the registry
    at that time (none when the handler is \<open>nil\<close>), and for each such result its append
    has been assigned once or the goroutine is still inside its append.

  Along every schedule in which each goroutine runs its whole body in one step, from a
  state in which no goroutine is inside its append:
  \<^item> the results drained so far, followed by the completed queue, are the completed queue
    at the start followed by the results appended: every appended result is drained once,
    in the order of the appends, or is still waiting in the queue.
\<close>

theorem handled_exactly_once:
  "hist polled acts w @ Events (exec acts w) = Events w @ hist submitted acts w \<and>
   mset (hist polled acts w) =
     mset (hist polled_absent acts w) + mset (hist polled_sync acts w)
       + mset (hist polled_async acts w) \<and>
   no_handler (stdout (exec acts w)) =
     no_handler (stdout w) @ map Event.Key (hist polled_absent acts w) \<and>
   outputs (stdout (exec acts w)) = outputs (stdout w) @ hist emitted acts w \<and>
   mset (waiting (goroutines (exec acts w))) + mset (hist begun acts w) =
     mset (waiting (goroutines w)) + mset (hist polled_async acts w) \<and>
   mset (unassigned (goroutines (exec acts w))) + mset (hist appended acts w) =
     mset (unassigned (goroutines w)) + mset (hist computed acts w) \<and>
   (quiescent w \<longrightarrow>
      hist drained (serialized sched) w @ completed (exec (serialized sched) w) =
        completed w @ hist appended (serialized sched) w)"
  using pending_queue_hist [of acts w] polled_classes [of acts w] no_handler_hist [of acts w]
    outputs_hist [of acts w] waiting_hist [of acts w] unassigned_hist [of acts w]
    completed_queue_serialized [of w sched]
  by blast

theorem handled_exactly_once_witness:
  "quiescent start \<and>
   hist polled (serialized serial_session) start = [hello_event 0 True, hello_event 1 False] \<and>
   hist polled_async (serialized serial_session) start = [hello_event 0 True] \<and>
   hist begun (serialized serial_session) start = [hello_event 0 True] \<and>
   hist appended (serialized serial_session) start = [hello_result 0] \<and>
   hist drained (serialized serial_session) start = [hello_result 0] \<and>
   hist emitted (serialized serial_session) start = [hello_result 1, hello_result 0] \<and>
   outputs (stdout (exec (serialized serial_session) start)) = [hello_result 1, hello_result 0] \<and>
   completed (exec (serialized serial_session) start) = [] \<and>
   waiting (goroutines (exec (serialized serial_session) start)) = []"
proof -
  note eval_defs = serial_session_def hello_event_def hello_result_def hello_def hello_keys
    start_def NewEventLoop_def step_defs polled_async_def polled_sync_def executed_sync_def
    emitted_def result_of_def
  have p: "hist polled (serialized serial_session) start =
      [hello_event 0 True, hello_event 1 False]"
    and pa: "hist polled_async (serialized serial_session) start = [hello_event 0 True]"
    and b: "hist begun (serialized serial_session) start = [hello_event 0 True]"
    and a: "hist appended (serialized serial_session) start = [hello_result 0]"
    and d: "hist drained (serialized serial_session) start = [hello_result 0]"
    and e: "hist emitted (serialized serial_session) start = [hello_result 1, hello_result 0]"
    by (simp_all add: eval_defs)
  have s: "outputs (stdout start) = []" and c: "completed start = []"
    and g: "waiting (goroutines start) = []"
    by (simp_all add: start_def NewEventLoop_def completed_def elements_def)
  note inst = handled_exactly_once [of "serialized serial_session" start serial_session]
  from inst have "outputs (stdout (exec (serialized serial_session) start)) =
      outputs (stdout start) @ hist emitted (serialized serial_session) start"
    by blast
  then have o: "outputs (stdout (exec (serialized serial_session) start)) =
      [hello_result 1, hello_result 0]"
    by (simp only: s e append_Nil)
  from inst quiescent_start
  have "hist drained (serialized serial_session) start @
      completed (exec (serialized serial_session) start) =
      completed start @ hist appended (serialized serial_session) start"
    by blast
  then have q: "completed (exec (serialized serial_session) start) = []"
    by (simp add: a d c)
  from inst have "mset (waiting (goroutines (exec (serialized serial_session) start))) +
      mset (hist begun (serialized serial_session) start) =
      mset (waiting (goroutines start)) + mset (hist polled_async (serialized serial_session) start)"
    by blast
  then have w: "waiting (goroutines (exec (serialized serial_session) start)) = []"
    by (simp add: b pa g)
  from quiescent_start p pa b a d e o q w show ?thesis by blast
qed

subsection \<open>Appends and the drain, one at a time\<close>

text \<open>
  Claim C7, as the code has it. The code does not serialize the appends and the drain:
  main.go has no lock and no channel. What holds is this. From a state in which no
  goroutine is inside its append, along every schedule in which each goroutine runs its
  body with no other step between its read and its write of the queue,
  \<^item> after every single step, the steps between the read and the write of an append
    included, at most one goroutine is inside its append;
  \<^item> the results drained so far, followed by the completed queue, are the completed
    queue at the start followed by the results appended: no append and no drain loses or
    repeats a result.
  In such a state a goroutine that runs its whole body adds exactly its result to the end
  of the completed queue (nothing when its handler is \<open>nil\<close>), and a call of \<open>run\<close>
  removes exactly the head of the completed queue.
\<close>

theorem serial_appends_exclusive:
  assumes "quiescent w"
  shows "(\<forall>n. mutex (exec (take n (serialized sched)) w)) \<and>
     hist drained (serialized sched) w @ completed (exec (serialized sched) w) =
       completed w @ hist appended (serialized sched) w \<and>
     (i < length (goroutines w) \<longrightarrow>
        completed (goroutine_run newcap i w) =
          completed w @ pending (Handlers w) (goroutines w ! i)) \<and>
     completed (run w) = drop 1 (completed w)"
proof (intro conjI allI impI)
  fix n
  show "mutex (exec (take n (serialized sched)) w)"
    using assms by (rule mutex_serialized_prefix)
next
  show "hist drained (serialized sched) w @ completed (exec (serialized sched) w) =
      completed w @ hist appended (serialized sched) w"
    using assms by (rule completed_queue_serialized)
next
  assume "i < length (goroutines w)"
  with assms show "completed (goroutine_run newcap i w) =
      completed w @ pending (Handlers w) (goroutines w ! i)"
    using complete_in by blast
next
  show "completed (run w) = drop 1 (completed w)" by (rule completed_run)
qed

theorem serial_appends_exclusive_witness:
  "quiescent start \<and>
   length (filter in_append (goroutines (exec (take 7 (serialized serial_session)) start))) = 1 \<and>
   mutex (exec (take 7 (serialized serial_session)) start) \<and>
   completed (exec (take 8 (serialized serial_session)) start) = [hello_result 0]"
proof -
  have one: "length (filter in_append
      (goroutines (exec (take 7 (serialized serial_session)) start))) = 1"
    and c: "completed (exec (take 8 (serialized serial_session)) start) = [hello_result 0]"
    by (simp_all add: serial_session_def hello_event_def hello_result_def hello_def hello_keys
        start_def NewEventLoop_def step_defs)
  from serial_appends_exclusive [OF quiescent_start, of serial_session]
  have "mutex (exec (take 7 (serialized serial_session)) start)" by blast
  with quiescent_start one c show ?thesis by blast
qed

subsection \<open>The file reader\<close>

text \<open>
  When \<open>os.ReadFile\<close> succeeds the contents are returned and nothing else is called. When
  it fails because the file is not there, the file is created, the placeholder is written
  and what reads back is returned.
\<close>

lemma readFile_contents:
  "ReadFile os = Inr data \<Longrightarrow> readFile os filename = (data, [CallReadFile filename])"
  by (simp add: readFile_def)

lemma readFile_created:
  "ReadFile os = Inl (opn, ENOENT) \<Longrightarrow> Create os = None \<Longrightarrow> ReadAll os = Inr data \<Longrightarrow>
   readFile os filename =
     (data, [CallReadFile filename, PrintExists False, CallCreate filename,
        CallWriteString ''New file created'', CallSeek, CallReadAll])"
  by (simp add: readFile_def IsExist_def)

lemma readFile_never_reports_read_error:
  "ReadFile os = Inl err \<Longrightarrow> \<not> IsExist err \<Longrightarrow> Create os = None \<Longrightarrow> ReadAll os = Inr data \<Longrightarrow>
   fst (readFile os filename) = data"
  by (simp add: readFile_def)

text \<open>
  Claim C8 at a failing input. \<open>os.IsExist\<close> is false for every error that reading a file
  can give, so the branch that returns "Error reading file" for a file that is there is
  never taken: whatever made the read fail, the file is created anew. For a file that
  exists and whose read fails with an input/output error, \<open>readFile\<close> calls
  \<open>os.Create\<close>, which empties the file, writes the placeholder and returns the
  placeholder, not a description of the error.
\<close>

theorem readFile_truncates_on_read_error:
  "readFile read_fails ''hello.txt'' =
     (''New file created'',
      [CallReadFile ''hello.txt'', PrintExists False, CallCreate ''hello.txt'',
       CallWriteString ''New file created'', CallSeek, CallReadAll])"
  by (simp add: readFile_def read_fails_def IsExist_def)

lemma readFile_device_full:
  "readFile device_full ''hello.txt'' =
     ([],
      [CallReadFile ''hello.txt'', PrintExists False, CallCreate ''hello.txt'',
       CallWriteString ''New file created'', CallSeek, CallReadAll])"
  by (simp add: readFile_def device_full_def IsExist_def)

end
